theory Spec2Isabelle
  imports Complex_Main "HOL-Library.Sublist"
begin

section \<open>Python strings\<close>

text \<open>
  A Python string is a sequence of code points. The code points kept here are those below
  256 (\<open>Latin\<close>), U+0130 (capital I with dot above), the one code point whose
  lower-casing is longer than itself, and U+0307 (combining dot above), which that
  lower-casing produces. \<open>lit\<close> reads a string literal of the source.
\<close>

datatype cp = Latin char | U0130 | U0307

type_synonym pystr = "cp list"

definition lit :: "string \<Rightarrow> pystr" where
  "lit s = map Latin s"

text \<open>
  \<^verbatim>\<open>str.isspace\<close> on these code points, which \<^verbatim>\<open>strip()\<close> and \<^verbatim>\<open>split()\<close>
  use.
\<close>

fun is_space :: "cp \<Rightarrow> bool" where
  "is_space (Latin c) =
     (let n = (of_char c :: nat)
      in (9 \<le> n \<and> n \<le> 13) \<or> (28 \<le> n \<and> n \<le> 32) \<or> n = 133 \<or> n = 160)"
| "is_space U0130 = False"
| "is_space U0307 = False"

text \<open>
  \<^verbatim>\<open>str.lower\<close>: the letters A to Z and the capital letters of the Latin-1 range move
  up by 32, U+0130 becomes the two code points \<^verbatim>\<open>i\<close> and U+0307, everything else stays.
\<close>

definition lower_char :: "char \<Rightarrow> char" where
  "lower_char c = (let n = (of_char c :: nat)
                   in if (65 \<le> n \<and> n \<le> 90) \<or> (192 \<le> n \<and> n \<le> 222 \<and> n \<noteq> 215)
                      then char_of (n + 32) else c)"

fun lower_cp :: "cp \<Rightarrow> pystr" where
  "lower_cp (Latin c) = [Latin (lower_char c)]"
| "lower_cp U0130 = [Latin (CHR ''i''), U0307]"
| "lower_cp U0307 = [U0307]"

definition lower :: "pystr \<Rightarrow> pystr" where
  "lower s = concat (map lower_cp s)"

definition strip_with :: "(cp \<Rightarrow> bool) \<Rightarrow> pystr \<Rightarrow> pystr" where
  "strip_with sp s = rev (dropWhile sp (rev (dropWhile sp s)))"

definition strip :: "pystr \<Rightarrow> pystr" where
  "strip s = strip_with is_space s"

text \<open>\<^verbatim>\<open>s.split()\<close>: the maximal runs of non-whitespace characters.\<close>

fun split_acc :: "pystr \<Rightarrow> pystr \<Rightarrow> pystr list" where
  "split_acc cur [] = (if cur = [] then [] else [cur])"
| "split_acc cur (c # cs) =
     (if is_space c then (if cur = [] then split_acc [] cs else cur # split_acc [] cs)
      else split_acc (cur @ [c]) cs)"

definition split :: "pystr \<Rightarrow> pystr list" where
  "split s = split_acc [] s"

text \<open>\<^verbatim>\<open>q in s\<close> on strings: \<open>q\<close> occurs in \<open>s\<close> as a contiguous block.\<close>

fun is_substring :: "pystr \<Rightarrow> pystr \<Rightarrow> bool" where
  "is_substring q [] = (q = [])"
| "is_substring q (c # cs) = (prefix q (c # cs) \<or> is_substring q cs)"

section \<open>Values exchanged with the remote catalog\<close>

text \<open>
  The aggregator (\<^verbatim>\<open>app.py\<close>) works on whatever \<^verbatim>\<open>r.json()\<close> decodes: Python
  \<^verbatim>\<open>None\<close>, booleans, integers, floats, strings, lists and dicts. A dict is kept as
  an association list in insertion order. A float is represented by the rational number it
  denotes; the non-finite floats are not represented.
\<close>

datatype json =
    JNull
  | JBool bool
  | JInt int
  | JFloat rat
  | JStr pystr
  | JList "json list"
  | JObj "(pystr \<times> json) list"

type_synonym dict = "(pystr \<times> json) list"

datatype pyerr = AttributeError | TypeError | ValueError | KeyError

text \<open>\<^verbatim>\<open>d.get(k, default)\<close>, \<^verbatim>\<open>k in d\<close> and \<^verbatim>\<open>d[k] = v\<close> on a dict.\<close>

definition dict_get :: "dict \<Rightarrow> pystr \<Rightarrow> json \<Rightarrow> json" where
  "dict_get d k dflt = (case map_of d k of None \<Rightarrow> dflt | Some v \<Rightarrow> v)"

definition dict_has :: "dict \<Rightarrow> pystr \<Rightarrow> bool" where
  "dict_has d k = (map_of d k \<noteq> None)"

fun dict_set :: "dict \<Rightarrow> pystr \<Rightarrow> json \<Rightarrow> dict" where
  "dict_set [] k v = [(k, v)]"
| "dict_set ((k', v') # d) k v = (if k' = k then (k, v) # d else (k', v') # dict_set d k v)"

text \<open>Python truthiness of a decoded value (\<^verbatim>\<open>if x:\<close>).\<close>

fun truthy :: "json \<Rightarrow> bool" where
  "truthy JNull = False"
| "truthy (JBool b) = b"
| "truthy (JInt i) = (i \<noteq> 0)"
| "truthy (JFloat r) = (r \<noteq> 0)"
| "truthy (JStr s) = (s \<noteq> [])"
| "truthy (JList xs) = (xs \<noteq> [])"
| "truthy (JObj d) = (d \<noteq> [])"

text \<open>The numeric value of a Python number (\<^verbatim>\<open>bool\<close> is a subtype of \<^verbatim>\<open>int\<close>).\<close>

fun num_of :: "json \<Rightarrow> rat option" where
  "num_of (JBool b) = Some (if b then 1 else 0)"
| "num_of (JInt i) = Some (of_int i)"
| "num_of (JFloat r) = Some r"
| "num_of _ = None"

section \<open>The relevance scorer\<close>

text \<open>
  \<^verbatim>\<open>track.get('title', '').lower()\<close> and
  \<^verbatim>\<open>track.get('user', {}).get('username', '').lower()\<close>: a value of another type
  than the one the method exists on raises \<^verbatim>\<open>AttributeError\<close>.
\<close>

definition get_title :: "dict \<Rightarrow> pyerr + pystr" where
  "get_title track =
     (case dict_get track (lit ''title'') (JStr []) of
        JStr s \<Rightarrow> Inr (lower s)
      | _ \<Rightarrow> Inl AttributeError)"

definition get_user :: "dict \<Rightarrow> pyerr + pystr" where
  "get_user track =
     (case dict_get track (lit ''user'') (JObj []) of
        JObj u \<Rightarrow> (case dict_get u (lit ''username'') (JStr []) of
                     JStr s \<Rightarrow> Inr (lower s)
                   | _ \<Rightarrow> Inl AttributeError)
      | _ \<Rightarrow> Inl AttributeError)"

text \<open>
  \<^verbatim>\<open>fuzz.token_set_ratio\<close> belongs to the rapidfuzz library; the scorer takes it as
  the parameter \<open>tsr\<close>. Its result is a float. The integer results 100 and 95 and the
  float result of the last branch are kept apart, as Python keeps them. The bonus is added
  exactly; the rounding of the float sum is not modelled.
\<close>

type_synonym ratio = "pystr \<Rightarrow> pystr \<Rightarrow> rat"

definition calculate_score :: "ratio \<Rightarrow> pystr \<Rightarrow> dict \<Rightarrow> pyerr + json" where
  "calculate_score tsr query track =
     (case get_title track of
        Inl e \<Rightarrow> Inl e
      | Inr title \<Rightarrow>
     (case get_user track of
        Inl e \<Rightarrow> Inl e
      | Inr user \<Rightarrow>
     (let combined = title @ lit '' '' @ user in
      if is_substring query title then Inr (JInt 100)
      else
        (let query_parts = split query in
         if length query_parts > 1 \<and> list_all (\<lambda>part. is_substring part combined) query_parts
         then Inr (JInt 95)
         else
           (let score = tsr query combined in
            Inr (JFloat (if truthy (dict_get track (lit ''download_url'') JNull)
                         then score + 5 else score)))))))"

section \<open>Conversions used by the aggregation engine\<close>

text \<open>
  \<^verbatim>\<open>x > 45\<close> for a decoded value \<open>x\<close>: defined on numbers, \<^verbatim>\<open>TypeError\<close> on
  \<^verbatim>\<open>None\<close>, strings, lists and dicts.
\<close>

definition gt_45 :: "json \<Rightarrow> pyerr + bool" where
  "gt_45 x = (case num_of x of None \<Rightarrow> Inl TypeError | Some r \<Rightarrow> Inr (r > 45))"

text \<open>
  \<^verbatim>\<open>int(x)\<close>: an integer is returned as it is, a float is truncated towards zero, a
  string is parsed as a decimal literal (surrounding whitespace, one optional sign, single
  underscores between digits); anything else raises. The whitespace \<^verbatim>\<open>int\<close> skips is
  narrower than that of \<^verbatim>\<open>strip()\<close>: the code points 28 to 31 are not skipped. A
  literal of more than 4300 digits raises \<^verbatim>\<open>ValueError\<close> (the interpreter's default
  limit).
\<close>

fun is_int_space :: "cp \<Rightarrow> bool" where
  "is_int_space (Latin c) =
     (let n = (of_char c :: nat) in (9 \<le> n \<and> n \<le> 13) \<or> n = 32 \<or> n = 133 \<or> n = 160)"
| "is_int_space U0130 = False"
| "is_int_space U0307 = False"

fun is_digit :: "cp \<Rightarrow> bool" where
  "is_digit (Latin c) = (let n = (of_char c :: nat) in 48 \<le> n \<and> n \<le> 57)"
| "is_digit U0130 = False"
| "is_digit U0307 = False"

fun digit_of :: "cp \<Rightarrow> int" where
  "digit_of (Latin c) = int (of_char c) - 48"
| "digit_of U0130 = 0"
| "digit_of U0307 = 0"

fun body_ok :: "pystr \<Rightarrow> bool" where
  "body_ok [] = False"
| "body_ok [c] = is_digit c"
| "body_ok (c # d # cs) =
     (is_digit c \<and> (if d = Latin (CHR ''_'') then body_ok cs else body_ok (d # cs)))"

definition digits_value :: "pystr \<Rightarrow> int" where
  "digits_value s = foldl (\<lambda>acc c. 10 * acc + digit_of c) 0 (filter is_digit s)"

definition int_max_str_digits :: nat where
  "int_max_str_digits = 4300"

definition int_of_string :: "pystr \<Rightarrow> pyerr + int" where
  "int_of_string s =
     (let t = strip_with is_int_space s;
          neg = (t \<noteq> [] \<and> hd t = Latin (CHR ''-''));
          body = (if t \<noteq> [] \<and> (hd t = Latin (CHR ''-'') \<or> hd t = Latin (CHR ''+''))
                  then tl t else t)
      in if body_ok body \<and> length (filter is_digit body) \<le> int_max_str_digits
         then Inr (if neg then - digits_value body else digits_value body)
         else Inl ValueError)"

definition truncate :: "rat \<Rightarrow> int" where
  "truncate r = (if 0 \<le> r then \<lfloor>r\<rfloor> else \<lceil>r\<rceil>)"

fun py_int :: "json \<Rightarrow> pyerr + int" where
  "py_int (JInt i) = Inr i"
| "py_int (JBool b) = Inr (if b then 1 else 0)"
| "py_int (JFloat r) = Inr (truncate r)"
| "py_int (JStr s) = int_of_string s"
| "py_int JNull = Inl TypeError"
| "py_int (JList xs) = Inl TypeError"
| "py_int (JObj d) = Inl TypeError"

text \<open>
  Membership in \<^verbatim>\<open>seen_ids\<close> goes through hash and equality: \<^verbatim>\<open>1\<close>, \<^verbatim>\<open>1.0\<close>
  and \<^verbatim>\<open>True\<close> are one element, and a list or a dict is unhashable
  (\<^verbatim>\<open>TypeError\<close>).
\<close>

datatype pykey = KNone | KNum rat | KStr pystr

fun hash_key :: "json \<Rightarrow> pykey option" where
  "hash_key JNull = Some KNone"
| "hash_key (JBool b) = Some (KNum (if b then 1 else 0))"
| "hash_key (JInt i) = Some (KNum (of_int i))"
| "hash_key (JFloat r) = Some (KNum r)"
| "hash_key (JStr s) = Some (KStr s)"
| "hash_key (JList xs) = None"
| "hash_key (JObj d) = None"

section \<open>Source fetchers\<close>

text \<open>
  The remote service is the function \<open>net\<close> from a request to what came back:
  \<open>NoResponse\<close> when \<^verbatim>\<open>requests.get\<close> raised (timeout, connection error), otherwise
  the status code and the decoded body, \<open>None\<close> when \<^verbatim>\<open>r.json()\<close> raises. The
  client-identity header drawn by \<^verbatim>\<open>get_headers\<close> is part of the request only.
\<close>

datatype request = GlobalSearch pystr nat | ArtistTracks pystr

datatype response = NoResponse | Response int "json option"

definition fetch_global :: "(request \<Rightarrow> response) \<Rightarrow> pystr \<Rightarrow> nat \<Rightarrow> json list" where
  "fetch_global net query page =
     (case net (GlobalSearch query page) of
        NoResponse \<Rightarrow> []
      | Response status_code body \<Rightarrow>
          if status_code \<noteq> 200 then []
          else (case body of
                  None \<Rightarrow> []
                | Some (JList xs) \<Rightarrow> xs
                | Some (JObj d) \<Rightarrow> filter (\<lambda>v. case v of JObj _ \<Rightarrow> True | _ \<Rightarrow> False) (map snd d)
                | Some _ \<Rightarrow> []))"

text \<open>The loop of \<^verbatim>\<open>fetch_artist\<close> over the decoded list.\<close>

fun artist_matches :: "ratio \<Rightarrow> pystr \<Rightarrow> json list \<Rightarrow> pyerr + json list" where
  "artist_matches tsr query [] = Inr []"
| "artist_matches tsr query (t # ts) =
     (case t of
        JObj d \<Rightarrow>
          (case calculate_score tsr query d of
             Inl e \<Rightarrow> Inl e
           | Inr score \<Rightarrow>
               (case gt_45 score of
                  Inl e \<Rightarrow> Inl e
                | Inr keep \<Rightarrow>
                    (case artist_matches tsr query ts of
                       Inl e \<Rightarrow> Inl e
                     | Inr ms \<Rightarrow>
                         Inr (if keep then JObj (dict_set d (lit ''_score'') score) # ms else ms))))
      | _ \<Rightarrow> artist_matches tsr query ts)"

definition fetch_artist :: "ratio \<Rightarrow> (request \<Rightarrow> response) \<Rightarrow> pystr \<Rightarrow> pystr \<Rightarrow> json list" where
  "fetch_artist tsr net artist query =
     (case net (ArtistTracks artist) of
        NoResponse \<Rightarrow> []
      | Response status_code body \<Rightarrow>
          (case body of
             None \<Rightarrow> []
           | Some (JList xs) \<Rightarrow>
               (case artist_matches tsr query xs of Inl e \<Rightarrow> [] | Inr matches \<Rightarrow> matches)
           | Some _ \<Rightarrow> []))"

section \<open>Aggregation engine\<close>

text \<open>\<^verbatim>\<open>t['_score']\<close>: indexing a dict raises \<^verbatim>\<open>KeyError\<close> on an absent key.\<close>

definition dict_item :: "dict \<Rightarrow> pystr \<Rightarrow> pyerr + json" where
  "dict_item d k = (case map_of d k of None \<Rightarrow> Inl KeyError | Some v \<Rightarrow> Inr v)"

text \<open>
  The body of the inner loop of \<^verbatim>\<open>search\<close>, on the state
  (\<^verbatim>\<open>results\<close>, \<^verbatim>\<open>seen_ids\<close>). An element that is not a dict has no
  \<^verbatim>\<open>get\<close>.
\<close>

definition ensure_score :: "ratio \<Rightarrow> pystr \<Rightarrow> dict \<Rightarrow> pyerr + dict" where
  "ensure_score tsr q d =
     (if \<not> dict_has d (lit ''_score'')
      then (case calculate_score tsr q d of
              Inl e \<Rightarrow> Inl e
            | Inr score \<Rightarrow> Inr (dict_set d (lit ''_score'') score))
      else Inr d)"

definition gather_one ::
  "ratio \<Rightarrow> pystr \<Rightarrow> json \<Rightarrow> json list \<times> pykey set \<Rightarrow> pyerr + json list \<times> pykey set" where
  "gather_one tsr q t st =
     (case t of
        JObj d \<Rightarrow>
          (let tid = dict_get d (lit ''id'') JNull in
           if \<not> truthy tid then Inr st
           else
             (case hash_key tid of
                None \<Rightarrow> Inl TypeError
              | Some k \<Rightarrow>
                  if k \<in> snd st then Inr st
                  else
                    (case ensure_score tsr q d of
                       Inl e \<Rightarrow> Inl e
                     | Inr d' \<Rightarrow>
                         (case dict_item d' (lit ''_score'') of
                            Inl e \<Rightarrow> Inl e
                          | Inr s \<Rightarrow>
                              (case gt_45 s of
                                 Inl e \<Rightarrow> Inl e
                               | Inr keep \<Rightarrow>
                                   if keep then Inr (fst st @ [JObj d'], insert k (snd st))
                                   else Inr st)))))
      | _ \<Rightarrow> Inl AttributeError)"

fun gather_tracks ::
  "ratio \<Rightarrow> pystr \<Rightarrow> json list \<Rightarrow> json list \<times> pykey set \<Rightarrow> pyerr + json list \<times> pykey set" where
  "gather_tracks tsr q [] st = Inr st"
| "gather_tracks tsr q (t # ts) st =
     (case gather_one tsr q t st of
        Inl e \<Rightarrow> Inl e
      | Inr st' \<Rightarrow> gather_tracks tsr q ts st')"

text \<open>The outer loop, over the results of the futures in completion order.\<close>

fun gather ::
  "ratio \<Rightarrow> pystr \<Rightarrow> json list list \<Rightarrow> json list \<times> pykey set \<Rightarrow> pyerr + json list \<times> pykey set" where
  "gather tsr q [] st = Inr st"
| "gather tsr q (tracks # rest) st =
     (case gather_tracks tsr q tracks st of
        Inl e \<Rightarrow> Inl e
      | Inr st' \<Rightarrow> gather tsr q rest st')"

text \<open>
  The sort key \<^verbatim>\<open>(x.get('_score', 0), int(x.get('playback_count', 0)))\<close>. The list
  sorted is the one \<open>gather\<close> built, whose scores are numbers; a score that is no number
  is given \<^verbatim>\<open>TypeError\<close> here, the error its comparison with a number raises.
\<close>

definition sort_key_of :: "json \<Rightarrow> pyerr + rat \<times> int" where
  "sort_key_of x =
     (case x of
        JObj d \<Rightarrow>
          (case num_of (dict_get d (lit ''_score'') (JInt 0)) of
             None \<Rightarrow> Inl TypeError
           | Some s \<Rightarrow>
               (case py_int (dict_get d (lit ''playback_count'') (JInt 0)) of
                  Inl e \<Rightarrow> Inl e
                | Inr p \<Rightarrow> Inr (s, p)))
      | _ \<Rightarrow> Inl AttributeError)"

fun map_err :: "('a \<Rightarrow> pyerr + 'b) \<Rightarrow> 'a list \<Rightarrow> pyerr + 'b list" where
  "map_err f [] = Inr []"
| "map_err f (x # xs) =
     (case f x of
        Inl e \<Rightarrow> Inl e
      | Inr y \<Rightarrow> (case map_err f xs of Inl e \<Rightarrow> Inl e | Inr ys \<Rightarrow> Inr (y # ys)))"

text \<open>
  \<^verbatim>\<open>list.sort(key=..., reverse=True)\<close> computes every key first, then sorts the
  keyed elements in descending order of the key tuples, elements with equal keys staying
  in their original order.
\<close>

definition key_ge :: "rat \<times> int \<Rightarrow> rat \<times> int \<Rightarrow> bool" where
  "key_ge a b = (fst a > fst b \<or> (fst a = fst b \<and> snd a \<ge> snd b))"

fun insert_desc :: "(rat \<times> int) \<times> 'a \<Rightarrow> ((rat \<times> int) \<times> 'a) list \<Rightarrow> ((rat \<times> int) \<times> 'a) list" where
  "insert_desc x [] = [x]"
| "insert_desc x (y # ys) = (if key_ge (fst x) (fst y) then x # y # ys else y # insert_desc x ys)"

definition sort_desc :: "((rat \<times> int) \<times> 'a) list \<Rightarrow> ((rat \<times> int) \<times> 'a) list" where
  "sort_desc xs = foldr insert_desc xs []"

definition sort_results :: "json list \<Rightarrow> pyerr + json list" where
  "sort_results results =
     (case map_err sort_key_of results of
        Inl e \<Rightarrow> Inl e
      | Inr keys \<Rightarrow> Inr (map snd (sort_desc (zip keys results))))"

section \<open>Result cache\<close>

text \<open>
  Modelled from the spec: \<^verbatim>\<open>TTLCache(maxsize=3000, ttl=1800)\<close> of the cachetools
  library, which is not part of the repository. An entry lives 1800 seconds from its
  insertion; the cache holds at most 3000 entries; an insertion first drops the expired
  entries and then, when the cache is full, the least recently used ones. The cache is the
  list of its entries (key, value, expiry time), least recently used first. Every
  operation reads the timer, so each takes the time of its reading.
\<close>

type_synonym cache = "(pystr \<times> json list \<times> rat) list"

definition ttl :: rat where
  "ttl = 1800"

definition maxsize :: nat where
  "maxsize = 3000"

definition cache_contains :: "cache \<Rightarrow> rat \<Rightarrow> pystr \<Rightarrow> bool" where
  "cache_contains c now k =
     (case map_of c k of None \<Rightarrow> False | Some (v, expires) \<Rightarrow> now < expires)"

definition cache_getitem :: "cache \<Rightarrow> rat \<Rightarrow> pystr \<Rightarrow> (pyerr + json list) \<times> cache" where
  "cache_getitem c now k =
     (case map_of c k of
        None \<Rightarrow> (Inl KeyError, c)
      | Some (v, expires) \<Rightarrow>
          (if now < expires then Inr v else Inl KeyError,
           filter (\<lambda>e. fst e \<noteq> k) c @ [(k, v, expires)]))"

definition cache_setitem :: "cache \<Rightarrow> rat \<Rightarrow> pystr \<Rightarrow> json list \<Rightarrow> cache" where
  "cache_setitem c now k v =
     (let live = filter (\<lambda>e. now < snd (snd e)) c;
          kept = (if map_of live k \<noteq> None then filter (\<lambda>e. fst e \<noteq> k) live
                  else drop (Suc (length live) - maxsize) live)
      in kept @ [(k, v, now + ttl)])"

section \<open>The search operation\<close>

text \<open>
  \<^verbatim>\<open>KNOWN_ARTISTS\<close> as written; \<^verbatim>\<open>random.shuffle\<close> reorders it once at start-up,
  so \<^verbatim>\<open>search\<close> takes the shuffled list as \<open>catalog\<close>.
\<close>

definition KNOWN_ARTISTS :: "pystr list" where
  "KNOWN_ARTISTS = map lit
    [''aidm'', ''allindiandjsclub'', ''djnyk'', ''djo2srk'', ''djshadowdubai'', ''desitech'',
     ''djshree'', ''djchetas'', ''djaqueel'', ''djlemon'', ''djparoma'',
     ''djkawal'', ''djbteja'', ''djrix'', ''djsmita'', ''djnotorious'',
     ''djsyrah'', ''djsarfaraz'', ''djasif'', ''djsubham'', ''djtejas'',
     ''djakhil'', ''djyogi'', ''djamit'', ''djruanon'', ''djkwid'',
     ''remix'', ''bollywood'', ''clubmirchi'', ''midnight'', ''bdes'',
     ''djremix'', ''mashup'', ''desiremix'', ''hindiremix'', ''punjabiremix'',
     ''djdalal'', ''djshouki'', ''djshaan'', ''djshadow'', ''djrink'']"

text \<open>
  What one call of \<^verbatim>\<open>search\<close> meets outside the program: the remote service, the
  time at which each dispatched fetch completes (\<^verbatim>\<open>as_completed\<close> yields the futures
  in that order), and the timer readings of the three cache operations.
\<close>

record world =
  net :: "request \<Rightarrow> response"
  finish :: "request \<Rightarrow> nat"
  t_contains :: rat
  t_getitem :: rat
  t_setitem :: rat

definition futures :: "pystr list \<Rightarrow> pystr \<Rightarrow> request list" where
  "futures catalog q =
     map (GlobalSearch q) [1 ..< 4] @ map ArtistTracks (take 20 catalog)"

definition run_fetch :: "ratio \<Rightarrow> (request \<Rightarrow> response) \<Rightarrow> pystr \<Rightarrow> request \<Rightarrow> json list" where
  "run_fetch tsr nt q r =
     (case r of
        GlobalSearch query page \<Rightarrow> fetch_global nt query page
      | ArtistTracks artist \<Rightarrow> fetch_artist tsr nt artist q)"

definition as_completed :: "world \<Rightarrow> request list \<Rightarrow> request list" where
  "as_completed w fs = sort_key (finish w) fs"

text \<open>
  \<^verbatim>\<open>search\<close> returns the list handed to \<^verbatim>\<open>jsonify\<close> or the exception that leaves
  the handler, the cache afterwards, and the fetches it dispatched. The argument is
  \<^verbatim>\<open>request.args.get("q")\<close>, absent or a string.
\<close>

definition normalize_query :: "pystr option \<Rightarrow> pystr" where
  "normalize_query arg = lower (strip (case arg of None \<Rightarrow> [] | Some s \<Rightarrow> s))"

definition search ::
  "ratio \<Rightarrow> pystr list \<Rightarrow> world \<Rightarrow> cache \<Rightarrow> pystr option
     \<Rightarrow> (pyerr + json list) \<times> cache \<times> request list" where
  "search tsr catalog w c arg =
     (let q = normalize_query arg in
      if length q < 2 then (Inr [], c, [])
      else if cache_contains c (t_contains w) q
      then (case cache_getitem c (t_getitem w) q of (r, c') \<Rightarrow> (r, c', []))
      else
        (let fs = futures catalog q;
             completed = map (run_fetch tsr (net w) q) (as_completed w fs)
         in case gather tsr q completed ([], {}) of
              Inl e \<Rightarrow> (Inl e, c, fs)
            | Inr (results, seen_ids) \<Rightarrow>
                (case sort_results results of
                   Inl e \<Rightarrow> (Inl e, c, fs)
                 | Inr sorted_results \<Rightarrow>
                     (let final_results = take 150 sorted_results
                      in (Inr final_results,
                          cache_setitem c (t_setitem w) q final_results,
                          fs)))))"

text \<open>The cache states a process can be in: it starts empty and only \<open>search\<close> writes it.\<close>

inductive reachable :: "ratio \<Rightarrow> pystr list \<Rightarrow> cache \<Rightarrow> bool" for tsr catalog where
  start: "reachable tsr catalog []"
| call: "reachable tsr catalog c \<Longrightarrow> search tsr catalog w c arg = (r, c', fs)
         \<Longrightarrow> reachable tsr catalog c'"

section \<open>Notions the properties are stated with\<close>

text \<open>
  A constant stand-in for the library's similarity ratio, for closed instances of the
  statements below.
\<close>

definition const_ratio :: "rat \<Rightarrow> ratio" where
  "const_ratio r a b = r"

text \<open>
  An item exposes a direct download when \<^verbatim>\<open>download_url\<close> is truthy; a query
  split-matches a text when it has at least two whitespace-separated parts and each occurs
  in the text.
\<close>

definition downloadable :: "dict \<Rightarrow> bool" where
  "downloadable d = truthy (dict_get d (lit ''download_url'') JNull)"

definition split_match :: "pystr \<Rightarrow> pystr \<Rightarrow> bool" where
  "split_match q combined =
     (length (split q) > 1 \<and> list_all (\<lambda>part. is_substring part combined) (split q))"

text \<open>
  The shape of a catalogue record the scorer can read: the title is absent or a string,
  the owner is absent or a dict whose \<^verbatim>\<open>username\<close> is absent or a string.
\<close>

definition is_str :: "json \<Rightarrow> bool" where
  "is_str v = (case v of JStr s \<Rightarrow> True | _ \<Rightarrow> False)"

definition title_ok :: "dict \<Rightarrow> bool" where
  "title_ok d = is_str (dict_get d (lit ''title'') (JStr []))"

definition user_ok :: "dict \<Rightarrow> bool" where
  "user_ok d = (case dict_get d (lit ''user'') (JObj []) of
                  JObj u \<Rightarrow> is_str (dict_get u (lit ''username'') (JStr []))
                | _ \<Rightarrow> False)"

definition candidate_item :: "dict \<Rightarrow> bool" where
  "candidate_item d = (title_ok d \<and> user_ok d)"

text \<open>
  An entry is above the relevance floor when its attached \<^verbatim>\<open>_score\<close> is a number
  greater than 45. The identity of an item is the hash key of a truthy \<^verbatim>\<open>id\<close>.
\<close>

definition above_floor :: "json \<Rightarrow> bool" where
  "above_floor x =
     (case x of
        JObj d \<Rightarrow> (case num_of (dict_get d (lit ''_score'') JNull) of None \<Rightarrow> False | Some r \<Rightarrow> r > 45)
      | _ \<Rightarrow> False)"

definition item_key :: "json \<Rightarrow> pykey option" where
  "item_key x =
     (case x of
        JObj d \<Rightarrow> (let tid = dict_get d (lit ''id'') JNull in if truthy tid then hash_key tid else None)
      | _ \<Rightarrow> None)"

text \<open>
  \<open>prefiltered\<close>: the attached score is the scorer's own result for the item and lies
  above the floor.
\<close>

definition prefiltered :: "ratio \<Rightarrow> pystr \<Rightarrow> json \<Rightarrow> bool" where
  "prefiltered tsr q x =
     (case x of
        JObj d \<Rightarrow> calculate_score tsr q d = Inr (dict_get d (lit ''_score'') JNull) \<and> above_floor x
      | _ \<Rightarrow> False)"

text \<open>
  \<open>scored\<close> is what the collecting loop would keep of one item looked at alone: the item
  with its score attached, when it has an identity and the score passes the floor.
  \<open>survivors\<close> are these for a list of items, in order; \<open>keep_new\<close> keeps of a list
  the first item of every identity not seen before; \<open>winners\<close> are, for every identity
  with a survivor, its first survivor.
\<close>

definition scored :: "ratio \<Rightarrow> pystr \<Rightarrow> json \<Rightarrow> json option" where
  "scored tsr q t =
     (case t of
        JObj d \<Rightarrow>
          (case item_key t of
             None \<Rightarrow> None
           | Some k \<Rightarrow>
               (case ensure_score tsr q d of
                  Inl e \<Rightarrow> None
                | Inr d' \<Rightarrow>
                    (case gt_45 (dict_get d' (lit ''_score'') JNull) of
                       Inl e \<Rightarrow> None
                     | Inr keep \<Rightarrow> if keep then Some (JObj d') else None)))
      | _ \<Rightarrow> None)"

definition survivors :: "ratio \<Rightarrow> pystr \<Rightarrow> json list \<Rightarrow> json list" where
  "survivors tsr q ts = List.map_filter (scored tsr q) ts"

fun keep_new :: "pykey set \<Rightarrow> json list \<Rightarrow> json list" where
  "keep_new seen [] = []"
| "keep_new seen (x # xs) =
     (case item_key x of
        None \<Rightarrow> keep_new seen xs
      | Some k \<Rightarrow> if k \<in> seen then keep_new seen xs else x # keep_new (insert k seen) xs)"

definition keys_of :: "json list \<Rightarrow> pykey set" where
  "keys_of xs = set (List.map_filter item_key xs)"

definition winners :: "ratio \<Rightarrow> pystr \<Rightarrow> json list \<Rightarrow> json list" where
  "winners tsr q items = keep_new {} (survivors tsr q items)"

text \<open>
  The items one run collects, in completion order of the fetches.
\<close>

definition collected :: "ratio \<Rightarrow> pystr list \<Rightarrow> world \<Rightarrow> pystr \<Rightarrow> json list" where
  "collected tsr catalog w q =
     concat (map (run_fetch tsr (net w) q) (as_completed w (futures catalog q)))"

text \<open>
  A list is ranked when every sort key can be computed and the keys descend; a result set
  is well formed when it is ranked, holds at most 150 entries and every entry is above the
  floor; a cache is well formed when every value in it is.
\<close>

definition ranked :: "json list \<Rightarrow> bool" where
  "ranked v = (case map_err sort_key_of v of Inl e \<Rightarrow> False | Inr keys \<Rightarrow> sorted_wrt key_ge keys)"

definition result_ok :: "json list \<Rightarrow> bool" where
  "result_ok v = (length v \<le> 150 \<and> ranked v \<and> list_all above_floor v)"

definition cache_ok :: "cache \<Rightarrow> bool" where
  "cache_ok c = list_all (\<lambda>e. result_ok (fst (snd e))) c"

section \<open>Sample records and remote behaviours\<close>

text \<open>
  Records as the catalogue returns them, and remote services that answer the first two
  result pages, every artist request, every request with a given status, or nothing.
\<close>

definition spec_item :: dict where
  "spec_item =
     [((lit ''id''), JInt 42),
      ((lit ''title''), JStr (lit ''Wakhra Swag Remix'')),
      ((lit ''user''), JObj [((lit ''username''), JStr (lit ''djX''))]),
      ((lit ''download_url''), JStr (lit ''https://hearthis.at/djx/wakhra-swag-remix/download/'')),
      ((lit ''playback_count''), JStr (lit ''1000''))]"

definition club_hit :: dict where
  "club_hit =
     [((lit ''id''), JInt 7), ((lit ''title''), JStr (lit ''Club Hit'')),
      ((lit ''download_url''), JStr (lit ''https://hearthis.at/djx/club-hit/download/'')),
      ((lit ''playback_count''), JInt 10)]"

definition swag_one :: dict where
  "swag_one = [((lit ''id''), JInt 8), ((lit ''title''), JStr (lit ''Swag One'')), ((lit ''playback_count''), JStr (lit ''5''))]"

definition swag_two :: dict where
  "swag_two = [((lit ''id''), JInt 9), ((lit ''title''), JStr (lit ''Swag Two'')), ((lit ''playback_count''), JInt 7)]"

definition old_mix :: dict where
  "old_mix = [((lit ''id''), JInt 7), ((lit ''title''), JStr (lit ''Old Mix''))]"

definition swag_remix :: dict where
  "swag_remix = [((lit ''id''), JInt 7), ((lit ''title''), JStr (lit ''Swag Remix''))]"

definition retro :: dict where
  "retro = [((lit ''id''), JInt 8), ((lit ''title''), JStr (lit ''Retro''))]"

definition retro_live :: dict where
  "retro_live = [((lit ''id''), JInt 8), ((lit ''title''), JStr (lit ''Retro (Live)''))]"

definition bad_count :: dict where
  "bad_count =
     [((lit ''id''), JInt 1), ((lit ''title''), JStr (lit ''Wakhra Swag'')), ((lit ''playback_count''), JStr (lit ''1.2k''))]"

definition net_pages :: "json list \<Rightarrow> json list \<Rightarrow> request \<Rightarrow> response" where
  "net_pages first_page second_page r =
     (case r of
        GlobalSearch q page \<Rightarrow>
          if page = 1 then Response 200 (Some (JList first_page))
          else if page = 2 then Response 200 (Some (JList second_page))
          else NoResponse
      | ArtistTracks a \<Rightarrow> NoResponse)"

definition net_artist :: "json list \<Rightarrow> request \<Rightarrow> response" where
  "net_artist items r =
     (case r of
        GlobalSearch q page \<Rightarrow> NoResponse
      | ArtistTracks a \<Rightarrow> Response 200 (Some (JList items)))"

definition net_status :: "int \<Rightarrow> json list \<Rightarrow> request \<Rightarrow> response" where
  "net_status status items r = Response status (Some (JList items))"

definition completion_time :: "request \<Rightarrow> nat" where
  "completion_time r = (case r of GlobalSearch q page \<Rightarrow> page | ArtistTracks a \<Rightarrow> 5)"

definition world_pages :: "json list \<Rightarrow> json list \<Rightarrow> world" where
  "world_pages first_page second_page =
     \<lparr>net = net_pages first_page second_page, finish = completion_time,
      t_contains = 0, t_getitem = 0, t_setitem = 10\<rparr>"

definition world_pages_at :: "rat \<Rightarrow> json list \<Rightarrow> json list \<Rightarrow> world" where
  "world_pages_at t first_page second_page =
     \<lparr>net = net_pages first_page second_page, finish = completion_time,
      t_contains = t, t_getitem = t, t_setitem = t\<rparr>"

definition later_world :: world where
  "later_world =
     \<lparr>net = (\<lambda>r. NoResponse), finish = completion_time,
      t_contains = 100, t_getitem = 101, t_setitem = 110\<rparr>"

definition silent_world :: "rat \<Rightarrow> world" where
  "silent_world t =
     \<lparr>net = (\<lambda>r. NoResponse), finish = completion_time,
      t_contains = t, t_getitem = t, t_setitem = t\<rparr>"

section \<open>The scorer\<close>

lemma lit_eq_iff [simp]: "lit a = lit b \<longleftrightarrow> a = b"
  by (simp add: lit_def inj_map_eq_map inj_def)

lemma of_char_lower_char:
  "of_char (lower_char c) = (let n = (of_char c :: nat)
      in if (65 \<le> n \<and> n \<le> 90) \<or> (192 \<le> n \<and> n \<le> 222 \<and> n \<noteq> 215) then n + 32 else n)"
  by (simp add: lower_char_def Let_def)

lemma lower_char_idem: "lower_char (lower_char c) = lower_char c"
proof -
  let ?n = "of_char c :: nat"
  show ?thesis
  proof (cases "(65 \<le> ?n \<and> ?n \<le> 90) \<or> (192 \<le> ?n \<and> ?n \<le> 222 \<and> ?n \<noteq> 215)")
    case True
    then have "(of_char (lower_char c) :: nat) = ?n + 32"
      by (simp add: of_char_lower_char)
    with True show ?thesis
      by (subst (1) lower_char_def) (auto simp: Let_def)
  next
    case False
    then have "lower_char c = c" by (auto simp: lower_char_def Let_def)
    then show ?thesis by simp
  qed
qed

lemma lower_char_i: "lower_char (CHR ''i'') = CHR ''i''"
  by code_simp

lemma lower_append: "lower (xs @ ys) = lower xs @ lower ys"
  by (simp add: lower_def)

lemma lower_cp_idem: "lower (lower_cp c) = lower_cp c"
  by (cases c) (simp_all add: lower_def lower_char_idem lower_char_i)

lemma lower_idem: "lower (lower s) = lower s"
proof (induction s)
  case Nil
  show ?case by (simp add: lower_def)
next
  case (Cons c s)
  have "lower (c # s) = lower_cp c @ lower s" by (simp add: lower_def)
  then show ?case using Cons.IH by (simp add: lower_append lower_cp_idem)
qed

lemma lower_normalize: "lower (normalize_query arg) = normalize_query arg"
  by (simp add: normalize_query_def lower_idem)

lemma is_substring_sublist: "is_substring q s \<longleftrightarrow> sublist q s"
  by (induction s) (simp_all add: sublist_Cons_right)

lemma is_substring_lower: "is_substring q s \<Longrightarrow> is_substring (lower q) (lower s)"
proof -
  assume "is_substring q s"
  then obtain ps ss where "s = ps @ q @ ss"
    by (auto simp: is_substring_sublist sublist_def)
  then have "lower s = lower ps @ lower q @ lower ss"
    by (simp add: lower_append)
  then show ?thesis
    unfolding is_substring_sublist sublist_def by blast
qed

lemma length_lower_ge: "length s \<le> length (lower s)"
proof (induction s)
  case Nil
  show ?case by (simp add: lower_def)
next
  case (Cons c s)
  have "lower (c # s) = lower_cp c @ lower s" by (simp add: lower_def)
  moreover have "1 \<le> length (lower_cp c)" by (cases c) simp_all
  ultimately show ?case using Cons.IH by simp
qed

lemma length_lower_plain: "U0130 \<notin> set s \<Longrightarrow> length (lower s) = length s"
proof (induction s)
  case Nil
  show ?case by (simp add: lower_def)
next
  case (Cons c s)
  have "lower (c # s) = lower_cp c @ lower s" by (simp add: lower_def)
  moreover have "length (lower_cp c) = 1" using Cons.prems by (cases c) simp_all
  ultimately show ?case using Cons by simp
qed

lemma get_title_total: "title_ok d \<Longrightarrow> \<exists>t. get_title d = Inr t"
  by (cases "dict_get d (lit ''title'') (JStr [])") (simp_all add: title_ok_def is_str_def get_title_def)

lemma get_title_err: "get_title d = Inl e \<Longrightarrow> e = AttributeError \<and> \<not> title_ok d"
  by (cases "dict_get d (lit ''title'') (JStr [])") (auto simp: title_ok_def is_str_def get_title_def)

lemma get_title_ok: "get_title d = Inr t \<Longrightarrow> title_ok d"
  by (cases "dict_get d (lit ''title'') (JStr [])") (auto simp: title_ok_def is_str_def get_title_def)

lemma username_cases:
  "(case dict_get u (lit ''username'') (JStr []) of JStr s \<Rightarrow> Inr (lower s) | _ \<Rightarrow> Inl AttributeError) =
     (if is_str (dict_get u (lit ''username'') (JStr []))
      then Inr (lower (case dict_get u (lit ''username'') (JStr []) of JStr s \<Rightarrow> s | _ \<Rightarrow> []))
      else Inl AttributeError)"
  by (cases "dict_get u (lit ''username'') (JStr [])") (simp_all add: is_str_def)

lemma get_user_total: "user_ok d \<Longrightarrow> \<exists>u. get_user d = Inr u"
  by (cases "dict_get d (lit ''user'') (JObj [])") (simp_all add: user_ok_def get_user_def username_cases)

lemma get_user_err: "get_user d = Inl e \<Longrightarrow> e = AttributeError \<and> \<not> user_ok d"
  by (cases "dict_get d (lit ''user'') (JObj [])")
     (auto simp: user_ok_def get_user_def username_cases split: if_splits)

lemma get_user_ok: "get_user d = Inr u \<Longrightarrow> user_ok d"
  by (cases "dict_get d (lit ''user'') (JObj [])")
     (auto simp: user_ok_def get_user_def username_cases split: if_splits)

text \<open>
  Claim C5. When the normalized query occurs in the title of a record, the scorer returns
  exactly 100, whatever \<^verbatim>\<open>download_url\<close> holds: the first branch returns before the
  bonus is looked at. The title is lower-cased before the test, so an occurrence in the
  title as written or in its lower-cased form both count.
\<close>

theorem exact_match_scores_100:
  assumes item: "candidate_item d"
    and title: "map_of d (lit ''title'') = Some (JStr s)"
    and sub: "is_substring (normalize_query arg) s \<or> is_substring (normalize_query arg) (lower s)"
  shows "calculate_score tsr (normalize_query arg) d = Inr (JInt 100)"
proof -
  have t: "get_title d = Inr (lower s)"
    using title by (simp add: get_title_def dict_get_def)
  obtain u where u: "get_user d = Inr u"
    using get_user_total [of d] item by (auto simp: candidate_item_def)
  have "is_substring (normalize_query arg) (lower s)"
    using sub is_substring_lower [of "normalize_query arg" s] by (auto simp: lower_normalize)
  then show ?thesis
    by (simp add: calculate_score_def t u)
qed

text \<open>
  An instance of C5 on a downloadable record.
\<close>

theorem exact_match_scores_100_witness:
  "candidate_item spec_item \<and>
   map_of spec_item (lit ''title'') = Some (JStr (lit ''Wakhra Swag Remix'')) \<and>
   is_substring (normalize_query (Some (lit ''  Wakhra SWAG ''))) (lower (lit ''Wakhra Swag Remix'')) \<and>
   downloadable spec_item \<and>
   calculate_score (const_ratio 0) (normalize_query (Some (lit ''  Wakhra SWAG ''))) spec_item = Inr (JInt 100)"
proof -
  have a: "candidate_item spec_item" by code_simp
  have b: "map_of spec_item (lit ''title'') = Some (JStr (lit ''Wakhra Swag Remix''))" by code_simp
  have c: "is_substring (normalize_query (Some (lit ''  Wakhra SWAG ''))) (lower (lit ''Wakhra Swag Remix''))"
    by code_simp
  have d: "downloadable spec_item" by code_simp
  from c have c': "is_substring (normalize_query (Some (lit ''  Wakhra SWAG ''))) (lit ''Wakhra Swag Remix'') \<or>
     is_substring (normalize_query (Some (lit ''  Wakhra SWAG ''))) (lower (lit ''Wakhra Swag Remix''))" ..
  from exact_match_scores_100 [OF a b c', of "const_ratio 0"] a b c d show ?thesis by blast
qed

text \<open>
  Claim C10. With a similarity ratio between 0 and 100, the scorer's result on a record it
  can read is a number between 0 and 105; it raises \<^verbatim>\<open>AttributeError\<close> exactly on a
  record whose title or owner has another shape.
\<close>

theorem score_between_0_and_105:
  assumes range: "\<forall>a b. 0 \<le> tsr a b \<and> tsr a b \<le> 100"
  shows "case calculate_score tsr q d of
           Inr v \<Rightarrow> candidate_item d \<and> (\<exists>r. num_of v = Some r \<and> 0 \<le> r \<and> r \<le> 105)
         | Inl e \<Rightarrow> e = AttributeError \<and> \<not> candidate_item d"
proof (cases "get_title d")
  case (Inl e)
  then show ?thesis using get_title_err [OF Inl] by (simp add: calculate_score_def candidate_item_def)
next
  case t: (Inr title)
  show ?thesis
  proof (cases "get_user d")
    case (Inl e)
    then show ?thesis using get_user_err [OF Inl] t by (simp add: calculate_score_def candidate_item_def)
  next
    case u: (Inr user)
    have item: "candidate_item d"
      using get_title_ok [OF t] get_user_ok [OF u] by (simp add: candidate_item_def)
    have lo: "0 \<le> tsr q (title @ (lit '' '') @ user)" and hi: "tsr q (title @ (lit '' '') @ user) \<le> 100"
      using range by blast+
    show ?thesis
      using lo hi item by (simp add: calculate_score_def t u Let_def)
  qed
qed

text \<open>
  An instance of C10 that reaches the ceiling: the query matches the owner only, the
  ratio is 100 and the record is downloadable.
\<close>

theorem score_between_0_and_105_witness:
  "(\<forall>a b. 0 \<le> const_ratio 100 a b \<and> const_ratio 100 a b \<le> 100) \<and>
   calculate_score (const_ratio 100) (lit ''djx'') spec_item = Inr (JFloat 105) \<and>
   candidate_item spec_item \<and>
   (\<exists>r. num_of (JFloat 105) = Some r \<and> 0 \<le> r \<and> r \<le> 105)"
proof -
  have range: "\<forall>a b. 0 \<le> const_ratio 100 a b \<and> const_ratio 100 a b \<le> 100"
    by (simp add: const_ratio_def)
  have v: "calculate_score (const_ratio 100) (lit ''djx'') spec_item = Inr (JFloat 105)" by code_simp
  from score_between_0_and_105 [OF range, where q = "lit ''djx''" and d = spec_item] v
  have "candidate_item spec_item \<and> (\<exists>r. num_of (JFloat 105) = Some r \<and> 0 \<le> r \<and> r \<le> 105)"
    by simp
  with range v show ?thesis by blast
qed

text \<open>
  Claim C2 as stated fails: the record of the spec's own scenario is downloadable, the
  query \<^verbatim>\<open>swag wakhra\<close> split-matches it, and the score is 95, not 100.
\<close>

theorem split_match_gets_no_bonus:
  "downloadable spec_item \<and>
   get_title spec_item = Inr (lit ''wakhra swag remix'') \<and>
   get_user spec_item = Inr (lit ''djx'') \<and>
   split_match (lit ''swag wakhra'') (lit ''wakhra swag remix djx'') \<and>
   calculate_score (const_ratio 0) (lit ''swag wakhra'') spec_item = Inr (JInt 95)"
  by code_simp

text \<open>
  Claim C2, amended. When the query does not occur in the title, a split match scores
  exactly 95 whether or not the record is downloadable, and only the fuzzy branch adds the
  bonus: its score is the ratio plus 5 for a downloadable record, the ratio otherwise.
\<close>

theorem bonus_only_on_fuzzy_branch:
  assumes t: "get_title d = Inr title" and u: "get_user d = Inr user"
    and nex: "\<not> is_substring q title"
  shows "calculate_score tsr q d =
           (if split_match q (title @ (lit '' '') @ user) then Inr (JInt 95)
            else Inr (JFloat (tsr q (title @ (lit '' '') @ user) + (if downloadable d then 5 else 0))))"
  using nex by (simp add: calculate_score_def t u Let_def split_match_def downloadable_def)

text \<open>
  An instance of the amended C2 on the fuzzy branch.
\<close>

theorem bonus_only_on_fuzzy_branch_witness:
  "get_title spec_item = Inr (lit ''wakhra swag remix'') \<and>
   get_user spec_item = Inr (lit ''djx'') \<and>
   \<not> is_substring (lit ''tum hi ho'') (lit ''wakhra swag remix'') \<and>
   \<not> split_match (lit ''tum hi ho'') (lit ''wakhra swag remix djx'') \<and>
   downloadable spec_item \<and>
   calculate_score (const_ratio 50) (lit ''tum hi ho'') spec_item = Inr (JFloat (50 + 5))"
proof -
  have t: "get_title spec_item = Inr (lit ''wakhra swag remix'')" by code_simp
  have u: "get_user spec_item = Inr (lit ''djx'')" by code_simp
  have n: "\<not> is_substring (lit ''tum hi ho'') (lit ''wakhra swag remix'')" by code_simp
  have s: "\<not> split_match (lit ''tum hi ho'') ((lit ''wakhra swag remix'') @ (lit '' '') @ (lit ''djx''))" by code_simp
  have d: "downloadable spec_item" by code_simp
  have s': "\<not> split_match (lit ''tum hi ho'') (lit ''wakhra swag remix djx'')" by code_simp
  have "calculate_score (const_ratio 50) (lit ''tum hi ho'') spec_item = Inr (JFloat (50 + 5))"
    using bonus_only_on_fuzzy_branch [OF t u n, of "const_ratio 50"] s d
    by (simp add: const_ratio_def)
  with t u n s' d show ?thesis by simp
qed

section \<open>The fetchers\<close>

text \<open>
  Both fetchers return the empty list when the request fails or the body cannot be
  decoded; the broad fetch also when the status is not 200.
\<close>

lemma fetch_global_fail_soft:
  assumes "nt (GlobalSearch query page) = NoResponse \<or>
           (\<exists>status body. nt (GlobalSearch query page) = Response status body \<and>
                          (status \<noteq> 200 \<or> body = None))"
  shows "fetch_global nt query page = []"
  using assms by (auto simp: fetch_global_def)

lemma fetch_artist_fail_soft:
  assumes "nt (ArtistTracks artist) = NoResponse \<or>
           (\<exists>status. nt (ArtistTracks artist) = Response status None)"
  shows "fetch_artist tsr nt artist query = []"
  using assms by (auto simp: fetch_artist_def)

text \<open>
  Claim C3. The entity fetch never looks at the status code: a response with status 404
  whose body is a list of records yields the matching records, not the empty list.
\<close>

theorem fetch_artist_ignores_status:
  "fetch_artist (const_ratio 0) (net_status 404 [JObj spec_item]) (lit ''djshadow'') (lit ''wakhra swag'')
     = [JObj (dict_set spec_item (lit ''_score'') (JInt 100))]"
  by code_simp

lemma map_of_dict_set: "map_of (dict_set d k v) k' = (if k' = k then Some v else map_of d k')"
  by (induction d) auto

lemma dict_get_dict_set:
  "dict_get (dict_set d k v) k' dflt = (if k' = k then v else dict_get d k' dflt)"
  by (simp add: dict_get_def map_of_dict_set)

lemma calculate_score_ignores_score:
  "calculate_score tsr q (dict_set d (lit ''_score'') s) = calculate_score tsr q d"
proof -
  have t: "get_title (dict_set d (lit ''_score'') s) = get_title d"
    by (simp add: get_title_def dict_get_dict_set)
  have u: "get_user (dict_set d (lit ''_score'') s) = get_user d"
    by (simp add: get_user_def dict_get_dict_set)
  have dl: "dict_get (dict_set d (lit ''_score'') s) (lit ''download_url'') JNull = dict_get d (lit ''download_url'') JNull"
    by (simp add: dict_get_dict_set)
  show ?thesis
    unfolding calculate_score_def t u dl by (rule refl)
qed

lemma artist_matches_prefiltered:
  "artist_matches tsr q ts = Inr ms \<Longrightarrow> list_all (prefiltered tsr q) ms"
proof (induction ts arbitrary: ms)
  case Nil
  then show ?case by simp
next
  case (Cons t ts)
  show ?case
  proof (cases t)
    case (JObj d)
    from Cons.prems JObj obtain score keep ms' where
      sc: "calculate_score tsr q d = Inr score" and k: "gt_45 score = Inr keep"
      and rest: "artist_matches tsr q ts = Inr ms'"
      and ms: "ms = (if keep then JObj (dict_set d (lit ''_score'') score) # ms' else ms')"
      by (auto split: sum.splits)
    have "prefiltered tsr q (JObj (dict_set d (lit ''_score'') score))" if keep
      using that sc k
      by (auto simp: prefiltered_def calculate_score_ignores_score dict_get_dict_set
            above_floor_def gt_45_def split: option.splits)
    with Cons.IH [OF rest] ms show ?thesis by simp
  qed (insert Cons, simp_all)
qed

lemma fetch_artist_prefiltered: "list_all (prefiltered tsr q) (fetch_artist tsr nt artist q)"
proof (cases "nt (ArtistTracks artist)")
  case NoResponse
  then show ?thesis by (simp add: fetch_artist_def)
next
  case (Response status body)
  show ?thesis
  proof (cases body)
    case None
    with Response show ?thesis by (simp add: fetch_artist_def)
  next
    case (Some data)
    show ?thesis
    proof (cases data)
      case (JList xs)
      show ?thesis
      proof (cases "artist_matches tsr q xs")
        case (Inl e)
        with Response Some JList show ?thesis by (simp add: fetch_artist_def)
      next
        case (Inr ms)
        with Response Some JList artist_matches_prefiltered [OF Inr] show ?thesis
          by (simp add: fetch_artist_def)
      qed
    qed (insert Response Some, simp_all add: fetch_artist_def)
  qed
qed

section \<open>The collecting loop\<close>

lemma ensure_score_id:
  "ensure_score tsr q d = Inr d' \<Longrightarrow> dict_get d' (lit ''id'') dflt = dict_get d (lit ''id'') dflt"
  by (auto simp: ensure_score_def dict_get_dict_set split: if_splits sum.splits)

lemma ensure_score_has:
  "ensure_score tsr q d = Inr d' \<Longrightarrow> \<exists>s. map_of d' (lit ''_score'') = Some s"
  by (auto simp: ensure_score_def dict_has_def map_of_dict_set split: if_splits sum.splits)

lemma item_key_ensure_score:
  "ensure_score tsr q d = Inr d' \<Longrightarrow> item_key (JObj d') = item_key (JObj d)"
  by (simp add: item_key_def ensure_score_id)

lemma gt_45_above_floor:
  "gt_45 (dict_get d (lit ''_score'') JNull) = Inr True \<Longrightarrow> above_floor (JObj d)"
  by (auto simp: gt_45_def above_floor_def split: option.splits)

lemma scored_props:
  assumes "scored tsr q t = Some x"
  shows "above_floor x \<and> item_key x = item_key t \<and> item_key t \<noteq> None"
proof -
  from assms obtain d where t: "t = JObj d"
    by (cases t) (simp_all add: scored_def)
  from assms t obtain k where k: "item_key (JObj d) = Some k"
    by (auto simp: scored_def split: option.splits)
  from assms t k obtain d' where d': "ensure_score tsr q d = Inr d'"
    by (auto simp: scored_def split: sum.splits)
  from assms t k d' have g: "gt_45 (dict_get d' (lit ''_score'') JNull) = Inr True" and x: "x = JObj d'"
    by (auto simp: scored_def split: sum.splits if_splits)
  show ?thesis
    using gt_45_above_floor [OF g] item_key_ensure_score [OF d'] k t x by simp
qed

lemma gather_one_spec:
  assumes "gather_one tsr q t st = Inr st'"
  shows "fst st' = fst st @ keep_new (snd st) (survivors tsr q [t]) \<and>
         snd st' = snd st \<union> {k. \<exists>x \<in> set (keep_new (snd st) (survivors tsr q [t])). item_key x = Some k}"
proof -
  from assms obtain d where t: "t = JObj d"
    by (cases t) (simp_all add: gather_one_def)
  show ?thesis
  proof (cases "item_key t")
    case None
    then have s: "scored tsr q t = None" by (simp add: scored_def t)
    have "st' = st"
    proof (cases "truthy (dict_get d (lit ''id'') JNull)")
      case True
      with None t have "hash_key (dict_get d (lit ''id'') JNull) = None"
        by (simp add: item_key_def)
      with True assms t show ?thesis by (simp add: gather_one_def)
    next
      case False
      with assms t show ?thesis by (simp add: gather_one_def)
    qed
    with s show ?thesis by (simp add: survivors_def)
  next
    case (Some k)
    with t have tr: "truthy (dict_get d (lit ''id'') JNull)" and h: "hash_key (dict_get d (lit ''id'') JNull) = Some k"
      by (auto simp: item_key_def Let_def split: if_splits)
    show ?thesis
    proof (cases "k \<in> snd st")
      case True
      with assms t tr h have eq: "st' = st" by (simp add: gather_one_def)
      show ?thesis
      proof (cases "scored tsr q t")
        case None
        with eq show ?thesis by (simp add: survivors_def)
      next
        case (Some x)
        with scored_props [OF Some] \<open>item_key t = Some k\<close> True eq show ?thesis
          by (simp add: survivors_def)
      qed
    next
      case False
      with assms t tr h obtain d' where d': "ensure_score tsr q d = Inr d'"
        by (auto simp: gather_one_def split: sum.splits)
      from ensure_score_has [OF d'] obtain s where s: "map_of d' (lit ''_score'') = Some s" by blast
      then have di: "dict_item d' (lit ''_score'') = Inr s" and dg: "dict_get d' (lit ''_score'') JNull = s"
        by (simp_all add: dict_item_def dict_get_def)
      from assms t tr h False d' di obtain keep where keep: "gt_45 s = Inr keep"
        by (auto simp: gather_one_def split: sum.splits)
      show ?thesis
      proof (cases keep)
        case True
        with assms t tr h False d' di keep
        have st': "st' = (fst st @ [JObj d'], insert k (snd st))"
          by (simp add: gather_one_def)
        have sc: "scored tsr q t = Some (JObj d')"
          using t \<open>item_key t = Some k\<close> d' dg keep True by (simp add: scored_def)
        have ik: "item_key (JObj d') = Some k"
          using item_key_ensure_score [OF d'] \<open>item_key t = Some k\<close> t by simp
        show ?thesis
          using st' sc ik False by (auto simp: survivors_def)
      next
        case False
        with assms t tr h \<open>k \<notin> snd st\<close> d' di keep have eq: "st' = st"
          by (simp add: gather_one_def)
        have sc: "scored tsr q t = None"
          using t \<open>item_key t = Some k\<close> d' dg keep False by (simp add: scored_def)
        show ?thesis using eq sc by (simp add: survivors_def)
      qed
    qed
  qed
qed

lemma keys_of_simps:
  "keys_of [] = {}"
  "keys_of (x # xs) = (case item_key x of None \<Rightarrow> keys_of xs | Some k \<Rightarrow> insert k (keys_of xs))"
  by (simp_all add: keys_of_def List.map_filter_simps split: option.splits)

lemma keys_of_iff: "k \<in> keys_of xs \<longleftrightarrow> (\<exists>x \<in> set xs. item_key x = Some k)"
  by (induction xs) (auto simp: keys_of_simps split: option.splits)

lemma survivors_simps:
  "survivors tsr q [] = []"
  "survivors tsr q (t # ts) = (case scored tsr q t of None \<Rightarrow> survivors tsr q ts | Some x \<Rightarrow> x # survivors tsr q ts)"
  by (simp_all add: survivors_def split: option.splits)

lemma survivors_append: "survivors tsr q (xs @ ys) = survivors tsr q xs @ survivors tsr q ys"
  by (simp add: survivors_def List.map_filter_def)

lemma keep_new_append:
  "keep_new seen (xs @ ys) = keep_new seen xs @ keep_new (seen \<union> keys_of (keep_new seen xs)) ys"
proof (induction xs arbitrary: seen)
  case Nil
  show ?case by (simp add: keys_of_simps)
next
  case (Cons x xs)
  show ?case
  proof (cases "item_key x")
    case None
    then show ?thesis using Cons.IH [of seen] by simp
  next
    case (Some k)
    show ?thesis
    proof (cases "k \<in> seen")
      case True
      with Some show ?thesis using Cons.IH [of seen] by simp
    next
      case False
      have "insert k seen \<union> keys_of (keep_new (insert k seen) xs)
            = seen \<union> keys_of (x # keep_new (insert k seen) xs)"
        by (simp add: keys_of_simps Some)
      with Some False show ?thesis using Cons.IH [of "insert k seen"] by simp
    qed
  qed
qed

lemma gather_one_spec':
  assumes "gather_one tsr q t st = Inr st'"
  shows "fst st' = fst st @ keep_new (snd st) (survivors tsr q [t])"
    and "snd st' = snd st \<union> keys_of (keep_new (snd st) (survivors tsr q [t]))"
  using gather_one_spec [OF assms] by (auto simp: keys_of_iff)

lemma gather_tracks_spec:
  "gather_tracks tsr q ts st = Inr st' \<Longrightarrow>
     fst st' = fst st @ keep_new (snd st) (survivors tsr q ts) \<and>
     snd st' = snd st \<union> keys_of (keep_new (snd st) (survivors tsr q ts))"
proof (induction ts arbitrary: st)
  case Nil
  then show ?case by (simp add: survivors_simps keys_of_simps)
next
  case (Cons t ts)
  from Cons.prems obtain st1 where one: "gather_one tsr q t st = Inr st1"
    and rest: "gather_tracks tsr q ts st1 = Inr st'"
    by (auto split: sum.splits)
  note a = gather_one_spec' [OF one]
  note b = Cons.IH [OF rest]
  have sv: "survivors tsr q (t # ts) = survivors tsr q [t] @ survivors tsr q ts"
    using survivors_append [of tsr q "[t]" ts] by simp
  have kn: "keep_new (snd st) (survivors tsr q (t # ts)) =
        keep_new (snd st) (survivors tsr q [t]) @ keep_new (snd st1) (survivors tsr q ts)"
    unfolding sv keep_new_append a(2) ..
  have ks: "keys_of (xs @ ys) = keys_of xs \<union> keys_of ys" for xs ys
    by (auto simp: keys_of_iff)
  show ?case
    using a b by (simp add: kn ks Un_assoc)
qed

lemma gather_spec:
  "gather tsr q tss st = Inr st' \<Longrightarrow>
     fst st' = fst st @ keep_new (snd st) (survivors tsr q (concat tss)) \<and>
     snd st' = snd st \<union> keys_of (keep_new (snd st) (survivors tsr q (concat tss)))"
proof (induction tss arbitrary: st)
  case Nil
  then show ?case by (simp add: survivors_simps keys_of_simps)
next
  case (Cons ts tss)
  from Cons.prems obtain st1 where one: "gather_tracks tsr q ts st = Inr st1"
    and rest: "gather tsr q tss st1 = Inr st'"
    by (auto split: sum.splits)
  let ?A = "keep_new (snd st) (survivors tsr q ts)"
  let ?B = "keep_new (snd st1) (survivors tsr q (concat tss))"
  from gather_tracks_spec [OF one]
  have a1: "fst st1 = fst st @ ?A" and a2: "snd st1 = snd st \<union> keys_of ?A" by simp_all
  from Cons.IH [OF rest]
  have b1: "fst st' = fst st1 @ ?B" and b2: "snd st' = snd st1 \<union> keys_of ?B" by simp_all
  have ks: "keys_of (?A @ ?B) = keys_of ?A \<union> keys_of ?B"
    by (auto simp: keys_of_iff)
  have kn: "keep_new (snd st) (survivors tsr q (concat (ts # tss))) = ?A @ ?B"
    by (simp add: survivors_append keep_new_append a2)
  show ?case
    unfolding kn ks using a1 a2 b1 b2 by (simp add: Un_assoc)
qed

lemma keep_new_subset: "set (keep_new seen xs) \<subseteq> set xs"
  by (induction xs arbitrary: seen) (auto split: option.splits if_splits)

lemma keep_new_keys:
  "x \<in> set (keep_new seen xs) \<Longrightarrow> \<exists>k. item_key x = Some k \<and> k \<notin> seen"
  by (induction xs arbitrary: seen) (auto split: option.splits if_splits)

lemma keep_new_distinct: "distinct (map item_key (keep_new seen xs))"
proof (induction xs arbitrary: seen)
  case Nil
  show ?case by simp
next
  case (Cons x xs)
  show ?case
  proof (cases "item_key x")
    case None
    then show ?thesis using Cons.IH by simp
  next
    case (Some k)
    have "Some k \<notin> item_key ` set (keep_new (insert k seen) xs)"
      using keep_new_keys [of _ "insert k seen" xs] by force
    with Some show ?thesis using Cons.IH by simp
  qed
qed

lemma keep_new_first:
  "x \<in> set (keep_new seen xs) \<Longrightarrow> find (\<lambda>c. item_key c = item_key x) xs = Some x"
proof (induction xs arbitrary: seen)
  case Nil
  then show ?case by simp
next
  case (Cons c cs)
  show ?case
  proof (cases "item_key c")
    case None
    with Cons.prems have in_rest: "x \<in> set (keep_new seen cs)" by simp
    from keep_new_keys [OF in_rest] None have "item_key c \<noteq> item_key x" by auto
    with Cons.IH [OF in_rest] show ?thesis by simp
  next
    case (Some k)
    show ?thesis
    proof (cases "k \<in> seen")
      case True
      with Some Cons.prems have in_rest: "x \<in> set (keep_new seen cs)" by simp
      from keep_new_keys [OF in_rest] Some True have "item_key c \<noteq> item_key x" by auto
      with Cons.IH [OF in_rest] show ?thesis by simp
    next
      case False
      with Some Cons.prems consider "x = c" | "x \<in> set (keep_new (insert k seen) cs)" by auto
      then show ?thesis
      proof cases
        case 1
        then show ?thesis by simp
      next
        case 2
        from keep_new_keys [OF 2] Some have "item_key c \<noteq> item_key x" by auto
        with Cons.IH [OF 2] show ?thesis by simp
      qed
    qed
  qed
qed

lemma keep_new_complete:
  "x \<in> set xs \<Longrightarrow> item_key x = Some k \<Longrightarrow> k \<notin> seen \<Longrightarrow>
     \<exists>y \<in> set (keep_new seen xs). item_key y = Some k"
proof (induction xs arbitrary: seen)
  case Nil
  then show ?case by simp
next
  case (Cons c cs)
  show ?case
  proof (cases "item_key c = Some k")
    case True
    with Cons.prems show ?thesis by simp
  next
    case False
    with Cons.prems have x: "x \<in> set cs" by auto
    show ?thesis
    proof (cases "item_key c")
      case None
      with Cons.IH [OF x Cons.prems(2) Cons.prems(3)] show ?thesis by simp
    next
      case (Some k')
      with False have "k' \<noteq> k" by simp
      with Cons.prems(3) have "k \<notin> insert k' seen" by simp
      from Cons.IH [OF x Cons.prems(2) this] Cons.IH [OF x Cons.prems(2) Cons.prems(3)] Some
      show ?thesis by (cases "k' \<in> seen") simp_all
    qed
  qed
qed

lemma survivors_props:
  "x \<in> set (survivors tsr q ts) \<Longrightarrow> above_floor x \<and> item_key x \<noteq> None"
proof (induction ts)
  case Nil
  then show ?case by (simp add: survivors_simps)
next
  case (Cons t ts)
  then show ?case
    using scored_props [of tsr q t] by (auto simp: survivors_simps split: option.splits)
qed

lemma winners_complete:
  assumes "x \<in> set (survivors tsr q items)"
  shows "\<exists>y \<in> set (winners tsr q items).
           find (\<lambda>c. item_key c = item_key x) (survivors tsr q items) = Some y"
proof -
  from survivors_props [OF assms] obtain k where k: "item_key x = Some k" by auto
  from keep_new_complete [OF assms k, of "{}"] obtain y where
    y: "y \<in> set (keep_new {} (survivors tsr q items))" and ky: "item_key y = Some k" by auto
  from keep_new_first [OF y] k ky
  have "find (\<lambda>c. item_key c = item_key x) (survivors tsr q items) = Some y" by simp
  with y show ?thesis by (auto simp: winners_def)
qed

lemma gather_results:
  assumes "gather tsr q tss ([], {}) = Inr (results, seen_ids)"
  shows "results = keep_new {} (survivors tsr q (concat tss))"
  using gather_spec [OF assms] by simp

lemma fresh_results_above_floor:
  assumes "gather tsr q tss ([], {}) = Inr (results, seen_ids)"
  shows "list_all above_floor results"
proof -
  have "set results \<subseteq> set (survivors tsr q (concat tss))"
    unfolding gather_results [OF assms] by (rule keep_new_subset)
  then show ?thesis
    using survivors_props [of _ tsr q "concat tss"] by (auto simp: list_all_iff)
qed

section \<open>Ranking\<close>

lemma key_ge_total: "\<not> key_ge a b \<Longrightarrow> key_ge b a"
  by (auto simp: key_ge_def)

lemma key_ge_trans: "key_ge a b \<Longrightarrow> key_ge b c \<Longrightarrow> key_ge a c"
  by (auto simp: key_ge_def)

lemma set_insert_desc: "set (insert_desc x ys) = insert x (set ys)"
  by (induction ys) auto

lemma sorted_insert_desc:
  "sorted_wrt (\<lambda>a b. key_ge (fst a) (fst b)) ys \<Longrightarrow>
   sorted_wrt (\<lambda>a b. key_ge (fst a) (fst b)) (insert_desc x ys)"
proof (induction ys)
  case Nil
  show ?case by simp
next
  case (Cons y ys)
  show ?case
  proof (cases "key_ge (fst x) (fst y)")
    case True
    with Cons.prems show ?thesis by (auto intro: key_ge_trans)
  next
    case False
    then have "key_ge (fst y) (fst x)" by (rule key_ge_total)
    with False Cons show ?thesis by (auto simp: set_insert_desc)
  qed
qed

lemma sorted_sort_desc: "sorted_wrt (\<lambda>a b. key_ge (fst a) (fst b)) (sort_desc xs)"
  unfolding sort_desc_def by (induction xs) (simp_all add: sorted_insert_desc)

lemma set_sort_desc: "set (sort_desc xs) = set xs"
  unfolding sort_desc_def by (induction xs) (simp_all add: set_insert_desc)

lemma length_insert_desc: "length (insert_desc x ys) = Suc (length ys)"
  by (induction ys) auto

lemma length_sort_desc: "length (sort_desc xs) = length xs"
  unfolding sort_desc_def by (induction xs) (simp_all add: length_insert_desc)

lemma distinct_map_insert_desc:
  "distinct (map g (insert_desc x ys)) = (g x \<notin> g ` set ys \<and> distinct (map g ys))"
  by (induction ys) (auto simp: set_insert_desc)

lemma distinct_map_sort_desc: "distinct (map g (sort_desc xs)) = distinct (map g xs)"
  unfolding sort_desc_def
  by (induction xs) (simp_all add: distinct_map_insert_desc set_sort_desc [unfolded sort_desc_def])

lemma map_err_Inr: "map_err f xs = Inr ys \<Longrightarrow> list_all2 (\<lambda>x y. f x = Inr y) xs ys"
  by (induction xs arbitrary: ys) (auto split: sum.splits)

lemma map_err_all: "\<forall>p \<in> set ps. f (snd p) = Inr (fst p) \<Longrightarrow> map_err f (map snd ps) = Inr (map fst ps)"
  by (induction ps) auto

lemma map_err_take: "map_err f xs = Inr ys \<Longrightarrow> map_err f (take n xs) = Inr (take n ys)"
proof (induction xs arbitrary: ys n)
  case Nil
  then show ?case by simp
next
  case (Cons x xs)
  then show ?case by (cases n) (auto split: sum.splits)
qed

lemma ranked_take: "ranked v \<Longrightarrow> ranked (take n v)"
proof -
  assume r: "ranked v"
  then obtain keys where k: "map_err sort_key_of v = Inr keys" and s: "sorted_wrt key_ge keys"
    by (auto simp: ranked_def split: sum.splits)
  have "sorted_wrt key_ge (take n keys)"
    using s by (rule sorted_wrt_take)
  then show ?thesis
    by (simp add: ranked_def map_err_take [OF k])
qed

lemma sort_results_props:
  assumes "sort_results rs = Inr out"
  shows "set out = set rs" and "length out = length rs" and "ranked out"
    and "distinct (map g out) = distinct (map g rs)"
proof -
  from assms obtain keys where k: "map_err sort_key_of rs = Inr keys"
    and out: "out = map snd (sort_desc (zip keys rs))"
    by (auto simp: sort_results_def split: sum.splits)
  from map_err_Inr [OF k] have la: "list_all2 (\<lambda>x y. sort_key_of x = Inr y) rs keys" .
  then have len: "length keys = length rs" by (simp add: list_all2_lengthD)
  have pairs: "\<forall>p \<in> set (zip keys rs). sort_key_of (snd p) = Inr (fst p)"
    using la by (auto simp: list_all2_conv_all_nth set_zip)
  have "set out = snd ` set (zip keys rs)"
    by (simp add: out set_sort_desc)
  also have "\<dots> = set (map snd (zip keys rs))" by simp
  also have "\<dots> = set rs" using len by simp
  finally show "set out = set rs" .
  show "length out = length rs"
    using len by (simp add: out length_sort_desc)
  have "map_err sort_key_of out = Inr (map fst (sort_desc (zip keys rs)))"
    unfolding out using pairs by (intro map_err_all) (simp add: set_sort_desc)
  moreover have "sorted_wrt key_ge (map fst (sort_desc (zip keys rs)))"
    using sorted_sort_desc [of "zip keys rs"] by (simp add: sorted_wrt_map)
  ultimately show "ranked out" by (simp add: ranked_def)
  have "distinct (map g out) = distinct (map (g \<circ> snd) (sort_desc (zip keys rs)))"
    by (simp add: out)
  also have "\<dots> = distinct (map (g \<circ> snd) (zip keys rs))"
    by (rule distinct_map_sort_desc)
  also have "\<dots> = distinct (map g (map snd (zip keys rs)))" by simp
  also have "\<dots> = distinct (map g rs)" using len by simp
  finally show "distinct (map g out) = distinct (map g rs)" .
qed

lemma ranked_adjacent:
  assumes "ranked v" and "Suc i < length v"
  shows "\<exists>s p s' p'. sort_key_of (v ! i) = Inr (s, p) \<and> sort_key_of (v ! Suc i) = Inr (s', p') \<and>
           (s > s' \<or> (s = s' \<and> p \<ge> p'))"
proof -
  from assms(1) obtain keys where k: "map_err sort_key_of v = Inr keys" and s: "sorted_wrt key_ge keys"
    by (auto simp: ranked_def split: sum.splits)
  from map_err_Inr [OF k] have la: "list_all2 (\<lambda>x y. sort_key_of x = Inr y) v keys" .
  then have len: "length keys = length v" by (simp add: list_all2_lengthD)
  from la assms(2) have a: "sort_key_of (v ! i) = Inr (keys ! i)"
    and b: "sort_key_of (v ! Suc i) = Inr (keys ! Suc i)"
    by (simp_all add: list_all2_conv_all_nth)
  have "key_ge (keys ! i) (keys ! Suc i)"
    using s assms(2) len by (simp add: sorted_wrt_nth_less)
  then show ?thesis
    using a b by (cases "keys ! i"; cases "keys ! Suc i") (simp add: key_ge_def)
qed

lemma fresh_result_ok:
  assumes g: "gather tsr q tss ([], {}) = Inr (results, seen_ids)"
    and s: "sort_results results = Inr sorted_results"
  shows "result_ok (take 150 sorted_results)"
proof -
  have "list_all above_floor results" using g by (rule fresh_results_above_floor)
  then have "list_all above_floor sorted_results"
    using sort_results_props(1) [OF s] by (simp add: list_all_iff)
  then have "list_all above_floor (take 150 sorted_results)"
    by (auto simp: list_all_iff dest: in_set_takeD)
  moreover have "ranked (take 150 sorted_results)"
    using sort_results_props(3) [OF s] by (rule ranked_take)
  ultimately show ?thesis by (simp add: result_ok_def)
qed

section \<open>Search and the cache\<close>

lemma search_short:
  "length (normalize_query arg) < 2 \<Longrightarrow> search tsr catalog w c arg = (Inr [], c, [])"
  by (simp add: search_def)

lemma search_hit:
  assumes "2 \<le> length (normalize_query arg)" and "cache_contains c (t_contains w) (normalize_query arg)"
  shows "search tsr catalog w c arg =
           (fst (cache_getitem c (t_getitem w) (normalize_query arg)),
            snd (cache_getitem c (t_getitem w) (normalize_query arg)), [])"
  using assms by (simp add: search_def split: prod.splits)

lemma search_miss:
  assumes len: "2 \<le> length (normalize_query arg)"
    and miss: "\<not> cache_contains c (t_contains w) (normalize_query arg)"
    and run: "search tsr catalog w c arg = (r, c', fs)"
  shows "fs = futures catalog (normalize_query arg) \<and>
         ((\<exists>e. r = Inl e \<and> c' = c) \<or>
          (\<exists>results seen_ids sorted_results.
            gather tsr (normalize_query arg)
              (map (run_fetch tsr (net w) (normalize_query arg))
                   (as_completed w (futures catalog (normalize_query arg))))
              ([], {}) = Inr (results, seen_ids) \<and>
            sort_results results = Inr sorted_results \<and>
            r = Inr (take 150 sorted_results) \<and>
            c' = cache_setitem c (t_setitem w) (normalize_query arg) (take 150 sorted_results)))"
proof -
  let ?q = "normalize_query arg"
  let ?g = "gather tsr ?q (map (run_fetch tsr (net w) ?q) (as_completed w (futures catalog ?q))) ([], {})"
  show ?thesis
  proof (cases ?g)
    case (Inl e)
    with len miss have "search tsr catalog w c arg = (Inl e, c, futures catalog ?q)"
      by (simp add: search_def Let_def)
    with run have "r = Inl e" and "c' = c" and "fs = futures catalog ?q" by simp_all
    then show ?thesis by blast
  next
    case (Inr st)
    obtain results seen_ids where st: "st = (results, seen_ids)" by (cases st)
    show ?thesis
    proof (cases "sort_results results")
      case (Inl e)
      with len miss Inr st have "search tsr catalog w c arg = (Inl e, c, futures catalog ?q)"
        by (simp add: search_def Let_def)
      with run have "r = Inl e" and "c' = c" and "fs = futures catalog ?q" by simp_all
      then show ?thesis by blast
    next
      case sr: (Inr sorted_results)
      with len miss Inr st
      have "search tsr catalog w c arg =
              (Inr (take 150 sorted_results),
               cache_setitem c (t_setitem w) ?q (take 150 sorted_results), futures catalog ?q)"
        by (simp add: search_def Let_def)
      with run have "r = Inr (take 150 sorted_results)"
        and "c' = cache_setitem c (t_setitem w) ?q (take 150 sorted_results)"
        and "fs = futures catalog ?q" by simp_all
      with Inr st sr show ?thesis by blast
    qed
  qed
qed

lemma futures_nonempty: "futures catalog q \<noteq> []"
  by (simp add: futures_def upt_rec)

lemma search_fetches:
  assumes "search tsr catalog w c arg = (r, c', fs)" and "fs \<noteq> []"
  shows "2 \<le> length (normalize_query arg)"
    and "\<not> cache_contains c (t_contains w) (normalize_query arg)"
proof -
  show len: "2 \<le> length (normalize_query arg)"
  proof (rule ccontr)
    assume "\<not> 2 \<le> length (normalize_query arg)"
    then have "length (normalize_query arg) < 2" by simp
    from search_short [OF this, of tsr catalog w c] assms show False by simp
  qed
  show "\<not> cache_contains c (t_contains w) (normalize_query arg)"
  proof
    assume "cache_contains c (t_contains w) (normalize_query arg)"
    from search_hit [OF len this, of tsr catalog] assms show False by simp
  qed
qed

lemma result_ok_Nil: "result_ok []"
  by (simp add: result_ok_def ranked_def)

lemma cache_ok_getitem:
  assumes "cache_ok c" and "cache_getitem c now k = (r, c')"
  shows "cache_ok c'" and "r = Inr v \<Longrightarrow> result_ok v"
proof -
  show "cache_ok c'"
  proof (cases "map_of c k")
    case None
    with assms show ?thesis by (simp add: cache_getitem_def)
  next
    case (Some ve)
    obtain v' e where ve: "ve = (v', e)" by (cases ve)
    from Some ve have "(k, v', e) \<in> set c" by (simp add: map_of_SomeD)
    with assms(1) have "result_ok v'" by (auto simp: cache_ok_def list_all_iff)
    moreover from assms Some ve have "c' = filter (\<lambda>e. fst e \<noteq> k) c @ [(k, v', e)]"
      by (auto simp: cache_getitem_def)
    ultimately show ?thesis using assms(1) by (auto simp: cache_ok_def list_all_iff)
  qed
  show "result_ok v" if "r = Inr v"
  proof (cases "map_of c k")
    case None
    with assms that show ?thesis by (simp add: cache_getitem_def)
  next
    case (Some ve)
    obtain v' e where ve: "ve = (v', e)" by (cases ve)
    from Some ve have "(k, v', e) \<in> set c" by (simp add: map_of_SomeD)
    with assms(1) have "result_ok v'" by (auto simp: cache_ok_def list_all_iff)
    moreover from assms Some ve that have "v = v'"
      by (auto simp: cache_getitem_def split: if_splits)
    ultimately show ?thesis by simp
  qed
qed

lemma cache_ok_setitem:
  assumes "cache_ok c" and "result_ok v"
  shows "cache_ok (cache_setitem c now k v)"
proof -
  let ?live = "filter (\<lambda>e. now < snd (snd e)) c"
  have live: "list_all (\<lambda>e. result_ok (fst (snd e))) ?live"
    using assms(1) by (auto simp: cache_ok_def list_all_iff)
  have "list_all (\<lambda>e. result_ok (fst (snd e))) (filter (\<lambda>e. fst e \<noteq> k) ?live)"
    using live by (auto simp: list_all_iff)
  moreover have "list_all (\<lambda>e. result_ok (fst (snd e))) (drop n ?live)" for n
  proof -
    have "set (drop n ?live) \<subseteq> set ?live" by (rule set_drop_subset)
    with live show ?thesis unfolding list_all_iff by blast
  qed
  ultimately show ?thesis
    using assms(2) by (simp add: cache_ok_def cache_setitem_def Let_def)
qed

lemma search_keeps_ok:
  assumes ok: "cache_ok c" and run: "search tsr catalog w c arg = (r, c', fs)"
  shows "cache_ok c'" and "r = Inr res \<Longrightarrow> result_ok res"
proof -
  let ?q = "normalize_query arg"
  have both: "cache_ok c' \<and> (r = Inr res \<longrightarrow> result_ok res)"
  proof (cases "length ?q < 2")
    case True
    from search_short [OF True, of tsr catalog w c] run ok show ?thesis
      by (auto simp: result_ok_Nil)
  next
    case long: False
    show ?thesis
    proof (cases "cache_contains c (t_contains w) ?q")
      case True
      obtain r0 c0 where g: "cache_getitem c (t_getitem w) ?q = (r0, c0)"
        by (cases "cache_getitem c (t_getitem w) ?q")
      from search_hit [OF _ True, of tsr catalog] long run g have "r = r0" and "c' = c0" by simp_all
      with cache_ok_getitem [OF ok g] show ?thesis by simp
    next
      case False
      from search_miss [OF _ False run] long
      consider e where "r = Inl e" "c' = c"
        | results seen_ids sorted_results where
            "gather tsr ?q (map (run_fetch tsr (net w) ?q) (as_completed w (futures catalog ?q))) ([], {})
               = Inr (results, seen_ids)"
            "sort_results results = Inr sorted_results"
            "r = Inr (take 150 sorted_results)"
            "c' = cache_setitem c (t_setitem w) ?q (take 150 sorted_results)"
        by fastforce
      then show ?thesis
      proof cases
        case 1
        with ok show ?thesis by simp
      next
        case 2
        have "result_ok (take 150 sorted_results)"
          using 2(1,2) by (rule fresh_result_ok)
        with 2 cache_ok_setitem [OF ok this] show ?thesis by auto
      qed
    qed
  qed
  from both show "cache_ok c'" by simp
  from both show "r = Inr res \<Longrightarrow> result_ok res" by simp
qed

lemma reachable_cache_ok: "reachable tsr catalog c \<Longrightarrow> cache_ok c"
proof (induction rule: reachable.induct)
  case start
  show ?case by (simp add: cache_ok_def)
next
  case (call c w arg r c' fs)
  then show ?case using search_keeps_ok(1) by blast
qed

lemma map_of_filter_fst: "map_of (filter (\<lambda>e. fst e \<noteq> k) xs) k = None"
  by (induction xs) auto

lemma map_of_drop_None: "map_of xs k = None \<Longrightarrow> map_of (drop n xs) k = None"
proof -
  assume "map_of xs k = None"
  then have "k \<notin> fst ` set xs" by (simp add: map_of_eq_None_iff)
  moreover have "set (drop n xs) \<subseteq> set xs" by (rule set_drop_subset)
  ultimately have "k \<notin> fst ` set (drop n xs)" by blast
  then show ?thesis by (simp add: map_of_eq_None_iff)
qed

lemma cache_setitem_lookup: "map_of (cache_setitem c now k v) k = Some (v, now + ttl)"
proof -
  let ?live = "filter (\<lambda>e. now < snd (snd e)) c"
  let ?kept = "if map_of ?live k \<noteq> None then filter (\<lambda>e. fst e \<noteq> k) ?live
               else drop (Suc (length ?live) - maxsize) ?live"
  have "map_of ?kept k = None"
  proof (cases "map_of ?live k")
    case None
    then show ?thesis using map_of_drop_None [OF None] by simp
  next
    case (Some ve)
    then show ?thesis using map_of_filter_fst [of k ?live] by simp
  qed
  then show ?thesis
    by (simp add: cache_setitem_def Let_def map_add_def)
qed

lemma cache_getitem_lookup:
  assumes "cache_getitem c now k = (Inr v, c')"
  shows "\<exists>e. map_of c k = Some (v, e) \<and> map_of c' k = Some (v, e)"
proof (cases "map_of c k")
  case None
  with assms show ?thesis by (simp add: cache_getitem_def)
next
  case (Some ve)
  obtain v' e where ve: "ve = (v', e)" by (cases ve)
  from assms Some ve have v: "v' = v" and c': "c' = filter (\<lambda>e. fst e \<noteq> k) c @ [(k, v', e)]"
    by (auto simp: cache_getitem_def split: if_splits)
  have "map_of c' k = Some (v', e)"
    unfolding c' by (simp add: map_add_def map_of_filter_fst)
  with Some ve v show ?thesis by simp
qed

lemma search_result_cached:
  assumes run: "search tsr catalog w c arg = (Inr res, c', fs)"
    and long: "2 \<le> length (normalize_query arg)"
  shows "\<exists>e. map_of c' (normalize_query arg) = Some (res, e) \<and>
             (fs \<noteq> [] \<longrightarrow> e = t_setitem w + ttl)"
proof (cases "cache_contains c (t_contains w) (normalize_query arg)")
  case True
  from search_hit [OF long True, of tsr catalog] run
  have g: "cache_getitem c (t_getitem w) (normalize_query arg) = (Inr res, c')" and fs: "fs = []"
    by (simp_all add: prod_eq_iff)
  from cache_getitem_lookup [OF g] fs show ?thesis by auto
next
  case False
  from search_miss [OF long False run]
  have "c' = cache_setitem c (t_setitem w) (normalize_query arg) res" by auto
  then show ?thesis by (simp add: cache_setitem_lookup)
qed

text \<open>
  A call for another query leaves an entry as it is when the entry is still alive at the
  store and the cache has room: such a call evicts nothing.
\<close>

lemma map_of_filter_Some:
  "map_of xs k = Some v \<Longrightarrow> P (k, v) \<Longrightarrow> map_of (filter P xs) k = Some v"
  by (induction xs) (auto split: if_splits)

lemma map_of_filter_other:
  "k \<noteq> k' \<Longrightarrow> map_of (filter (\<lambda>e. fst e \<noteq> k') xs) k = map_of xs k"
  by (induction xs) auto

lemma cache_getitem_keeps_other:
  assumes "k \<noteq> k'"
  shows "map_of (snd (cache_getitem c now k')) k = map_of c k"
proof (cases "map_of c k'")
  case None
  then show ?thesis by (simp add: cache_getitem_def)
next
  case (Some ve)
  obtain v e where "ve = (v, e)" by (cases ve)
  with Some assms show ?thesis
    by (simp add: cache_getitem_def map_add_def map_of_filter_other split: option.splits)
qed

lemma cache_setitem_keeps_other:
  assumes other: "k \<noteq> k'" and entry: "map_of c k = Some (v, e)" and alive: "now < e"
    and room: "length c < maxsize"
  shows "map_of (cache_setitem c now k' v') k = Some (v, e)"
proof -
  let ?live = "filter (\<lambda>e. now < snd (snd e)) c"
  have live: "map_of ?live k = Some (v, e)"
    using entry alive by (intro map_of_filter_Some) simp_all
  have "length ?live \<le> length c" by (rule length_filter_le)
  with room have nodrop: "Suc (length ?live) - maxsize = 0" by arith
  let ?kept = "if map_of ?live k' \<noteq> None then filter (\<lambda>e. fst e \<noteq> k') ?live
               else drop (Suc (length ?live) - maxsize) ?live"
  have "map_of ?kept k = Some (v, e)"
  proof (cases "map_of ?live k'")
    case None
    then show ?thesis using live nodrop by simp
  next
    case (Some ve)
    then show ?thesis using live map_of_filter_other [OF other, of ?live] by simp
  qed
  then show ?thesis
    using other by (simp add: cache_setitem_def Let_def map_add_def)
qed

lemma search_keeps_entry:
  assumes run: "search tsr catalog w c arg = (r, c', fs)"
    and other: "k \<noteq> normalize_query arg"
    and entry: "map_of c k = Some (v, e)" and alive: "t_setitem w < e"
    and room: "length c < maxsize"
  shows "map_of c' k = Some (v, e)"
proof (cases "length (normalize_query arg) < 2")
  case True
  from search_short [OF True, of tsr catalog w c] run entry show ?thesis by simp
next
  case False
  then have long: "2 \<le> length (normalize_query arg)" by simp
  show ?thesis
  proof (cases "cache_contains c (t_contains w) (normalize_query arg)")
    case True
    from search_hit [OF long True, of tsr catalog] run
    have "c' = snd (cache_getitem c (t_getitem w) (normalize_query arg))" by simp
    then show ?thesis using cache_getitem_keeps_other [OF other] entry by simp
  next
    case miss: False
    from search_miss [OF long miss run]
    consider "c' = c"
      | res where "c' = cache_setitem c (t_setitem w) (normalize_query arg) res"
      by auto
    then show ?thesis
    proof cases
      case 1
      with entry show ?thesis by simp
    next
      case 2
      then show ?thesis
        using cache_setitem_keeps_other [OF other entry alive room] by simp
    qed
  qed
qed

text \<open>
  Claim C9 as stated fails. The query is the single code point U+0130: its trimmed form has
  length 1, its normalized form has the two code points \<^verbatim>\<open>i\<close> and U+0307, the length
  test passes and the 23 fetches are dispatched.
\<close>

theorem short_trimmed_query_can_fetch:
  "length (strip [U0130]) = 1 \<and>
   normalize_query (Some [U0130]) = [Latin (CHR ''i''), U0307] \<and>
   search (const_ratio 0) KNOWN_ARTISTS (silent_world 0) [] (Some [U0130])
     = (Inr [], [([Latin (CHR ''i''), U0307], [], 1800)],
        futures KNOWN_ARTISTS [Latin (CHR ''i''), U0307]) \<and>
   length (futures KNOWN_ARTISTS [Latin (CHR ''i''), U0307]) = 23"
  by code_simp

text \<open>
  Claim C9, amended. A query whose normalized form (trimmed, then lower-cased) has fewer
  than two characters is answered with the empty list; the cache is left as it was and no
  fetch is dispatched. Every query whose trimmed form has fewer than two characters and is
  not U+0130 is such a query, and every such query has a trimmed form of fewer than two
  characters.
\<close>

theorem short_query_returns_empty:
  assumes "length (normalize_query arg) < 2 \<or>
           (length (strip (case arg of None \<Rightarrow> [] | Some s \<Rightarrow> s)) < 2 \<and>
            U0130 \<notin> set (strip (case arg of None \<Rightarrow> [] | Some s \<Rightarrow> s)))"
  shows "search tsr catalog w c arg = (Inr [], c, []) \<and>
         length (strip (case arg of None \<Rightarrow> [] | Some s \<Rightarrow> s)) < 2"
proof -
  let ?t = "strip (case arg of None \<Rightarrow> [] | Some s \<Rightarrow> s)"
  have n: "normalize_query arg = lower ?t" by (simp add: normalize_query_def)
  from assms have short: "length (normalize_query arg) < 2"
    using length_lower_plain [of ?t] by (auto simp: n)
  then have "length ?t < 2" using length_lower_ge [of ?t] by (simp add: n)
  with search_short [OF short] show ?thesis by simp
qed

text \<open>
  An instance of the amended C9.
\<close>

theorem short_query_returns_empty_witness:
  "length (strip (lit ''  a  '')) < 2 \<and>
   U0130 \<notin> set (strip (lit ''  a  '')) \<and>
   search (const_ratio 0) KNOWN_ARTISTS (world_pages [JObj spec_item] []) [] (Some (lit ''  a  ''))
     = (Inr [], [], [])"
proof -
  have short: "length (strip (lit ''  a  '')) < 2" by code_simp
  have plain: "U0130 \<notin> set (strip (lit ''  a  ''))" by code_simp
  from short plain have hyp:
    "length (normalize_query (Some (lit ''  a  ''))) < 2 \<or>
     (length (strip (case Some (lit ''  a  '') of None \<Rightarrow> [] | Some s \<Rightarrow> s)) < 2 \<and>
      U0130 \<notin> set (strip (case Some (lit ''  a  '') of None \<Rightarrow> [] | Some s \<Rightarrow> s)))"
    by simp
  from short_query_returns_empty [OF hyp] short plain show ?thesis by blast
qed

text \<open>
  Claim C8. After a call that returned a list, a call for the same normalized query on any
  later cache that still maps the query to the entry the first call left there returns the
  same list and dispatches no fetch, whatever the remote service would answer now, provided
  the entry is still alive at both of its cache reads. When the first call ran the
  pipeline, the entry is alive for 1800 seconds from the store; when the first call was
  itself answered from the cache, the entry keeps the expiry it had.
\<close>

theorem repeated_search_served_from_cache:
  assumes first: "search tsr catalog w1 c arg1 = (Inr res, c1, fs1)"
    and kept: "map_of c2 (normalize_query arg1) = map_of c1 (normalize_query arg1)"
    and same: "normalize_query arg2 = normalize_query arg1"
    and live: "(fs1 \<noteq> [] \<and> t_contains w2 < t_setitem w1 + ttl \<and> t_getitem w2 < t_setitem w1 + ttl) \<or>
               (cache_contains c2 (t_contains w2) (normalize_query arg1) \<and>
                cache_contains c2 (t_getitem w2) (normalize_query arg1))"
  shows "\<exists>c3. search tsr catalog w2 c2 arg2 = (Inr res, c3, [])"
proof (cases "length (normalize_query arg1) < 2")
  case True
  from search_short [OF True, of tsr catalog w1 c] first have "res = []" by simp
  moreover from True same have "length (normalize_query arg2) < 2" by simp
  ultimately show ?thesis using search_short [of arg2 tsr catalog w2 c2] by simp
next
  case False
  then have long: "2 \<le> length (normalize_query arg1)" by simp
  let ?q = "normalize_query arg1"
  from search_result_cached [OF first long] obtain e where
    look1: "map_of c1 ?q = Some (res, e)" and fresh: "fs1 \<noteq> [] \<longrightarrow> e = t_setitem w1 + ttl"
    by blast
  from look1 kept have look: "map_of c2 ?q = Some (res, e)" by simp
  from live fresh look have tc: "t_contains w2 < e" and tg: "t_getitem w2 < e"
    by (auto simp: cache_contains_def)
  have hit: "cache_contains c2 (t_contains w2) (normalize_query arg2)"
    using look tc by (simp add: cache_contains_def same)
  have get: "fst (cache_getitem c2 (t_getitem w2) (normalize_query arg2)) = Inr res"
    using look tg by (simp add: cache_getitem_def same)
  from search_hit [OF _ hit, of tsr catalog] long get show ?thesis
    by (simp add: same)
qed

text \<open>
  An instance of C8 with a call for another query in between: the second call for the
  query comes 90 seconds after the store, with a remote service that no longer answers.
\<close>

theorem repeated_search_served_from_cache_witness:
  "search (const_ratio 0) KNOWN_ARTISTS (world_pages [JObj retro, JObj spec_item] []) []
      (Some (lit '' Wakhra SWAG ''))
     = (Inr [JObj (dict_set spec_item (lit ''_score'') (JInt 100))],
        [(lit ''wakhra swag'', [JObj (dict_set spec_item (lit ''_score'') (JInt 100))], 1810)],
        futures KNOWN_ARTISTS (lit ''wakhra swag'')) \<and>
   search (const_ratio 0) KNOWN_ARTISTS (world_pages_at 50 [JObj swag_one] [JObj swag_two])
      [(lit ''wakhra swag'', [JObj (dict_set spec_item (lit ''_score'') (JInt 100))], 1810)]
      (Some (lit ''swag''))
     = (Inr [JObj (dict_set swag_two (lit ''_score'') (JInt 100)),
             JObj (dict_set swag_one (lit ''_score'') (JInt 100))],
        [(lit ''wakhra swag'', [JObj (dict_set spec_item (lit ''_score'') (JInt 100))], 1810),
         (lit ''swag'', [JObj (dict_set swag_two (lit ''_score'') (JInt 100)),
                        JObj (dict_set swag_one (lit ''_score'') (JInt 100))], 1850)],
        futures KNOWN_ARTISTS (lit ''swag'')) \<and>
   normalize_query (Some (lit ''wakhra swag'')) = normalize_query (Some (lit '' Wakhra SWAG '')) \<and>
   futures KNOWN_ARTISTS (lit ''wakhra swag'') \<noteq> [] \<and>
   t_contains later_world < t_setitem (world_pages [JObj retro, JObj spec_item] []) + ttl \<and>
   t_getitem later_world < t_setitem (world_pages [JObj retro, JObj spec_item] []) + ttl \<and>
   (\<exists>c3. search (const_ratio 0) KNOWN_ARTISTS later_world
            [(lit ''wakhra swag'', [JObj (dict_set spec_item (lit ''_score'') (JInt 100))], 1810),
             (lit ''swag'', [JObj (dict_set swag_two (lit ''_score'') (JInt 100)),
                            JObj (dict_set swag_one (lit ''_score'') (JInt 100))], 1850)]
            (Some (lit ''wakhra swag''))
          = (Inr [JObj (dict_set spec_item (lit ''_score'') (JInt 100))], c3, []))"
proof -
  let ?res = "[JObj (dict_set spec_item (lit ''_score'') (JInt 100))]"
  let ?other = "[JObj (dict_set swag_two (lit ''_score'') (JInt 100)),
                 JObj (dict_set swag_one (lit ''_score'') (JInt 100))]"
  let ?c1 = "[(lit ''wakhra swag'', ?res, 1810 :: rat)]"
  let ?c2 = "[(lit ''wakhra swag'', ?res, 1810 :: rat), (lit ''swag'', ?other, 1850)]"
  let ?w = "world_pages [JObj retro, JObj spec_item] []"
  have first: "search (const_ratio 0) KNOWN_ARTISTS ?w [] (Some (lit '' Wakhra SWAG ''))
      = (Inr ?res, ?c1, futures KNOWN_ARTISTS (lit ''wakhra swag''))"
    by code_simp
  have between: "search (const_ratio 0) KNOWN_ARTISTS (world_pages_at 50 [JObj swag_one] [JObj swag_two])
      ?c1 (Some (lit ''swag'')) = (Inr ?other, ?c2, futures KNOWN_ARTISTS (lit ''swag''))"
    by code_simp
  have kept: "map_of ?c2 (normalize_query (Some (lit '' Wakhra SWAG '')))
      = map_of ?c1 (normalize_query (Some (lit '' Wakhra SWAG '')))"
    by code_simp
  have ne: "futures KNOWN_ARTISTS (lit ''wakhra swag'') \<noteq> []" by (rule futures_nonempty)
  have same: "normalize_query (Some (lit ''wakhra swag'')) = normalize_query (Some (lit '' Wakhra SWAG ''))"
    by code_simp
  have tc: "t_contains later_world < t_setitem ?w + ttl" by code_simp
  have tg: "t_getitem later_world < t_setitem ?w + ttl" by code_simp
  from ne tc tg have live:
    "(futures KNOWN_ARTISTS (lit ''wakhra swag'') \<noteq> [] \<and> t_contains later_world < t_setitem ?w + ttl \<and>
      t_getitem later_world < t_setitem ?w + ttl) \<or>
     (cache_contains ?c2 (t_contains later_world) (normalize_query (Some (lit '' Wakhra SWAG ''))) \<and>
      cache_contains ?c2 (t_getitem later_world) (normalize_query (Some (lit '' Wakhra SWAG ''))))"
    by blast
  note t = repeated_search_served_from_cache [OF first kept same live]
  from t first between ne same tc tg show ?thesis by blast
qed

text \<open>
  Claim C6. Every entry of a list that \<open>search\<close> returns, freshly aggregated or read
  from the cache, carries a score above 45, and every record the entity fetch returns
  carries the scorer's result for it, above 45.
\<close>

theorem no_result_at_or_below_floor:
  assumes "reachable tsr catalog c" and "search tsr catalog w c arg = (Inr res, c', fs)"
  shows "list_all above_floor res \<and> list_all (prefiltered tsr q) (fetch_artist tsr nt artist q)"
proof -
  have "result_ok res"
    using search_keeps_ok(2) [OF reachable_cache_ok [OF assms(1)] assms(2)] by simp
  then show ?thesis
    using fetch_artist_prefiltered [of tsr q nt artist] by (simp add: result_ok_def)
qed

text \<open>
  An instance of C6: the list is read from the cache a first call filled, and the entity
  fetch drops the record that scores 0.
\<close>

theorem no_result_at_or_below_floor_witness:
  "reachable (const_ratio 0) KNOWN_ARTISTS
      [((lit ''wakhra swag''), [JObj (dict_set spec_item (lit ''_score'') (JInt 100))], 1810)] \<and>
   search (const_ratio 0) KNOWN_ARTISTS later_world
      [((lit ''wakhra swag''), [JObj (dict_set spec_item (lit ''_score'') (JInt 100))], 1810)]
      (Some (lit ''wakhra swag''))
     = (Inr [JObj (dict_set spec_item (lit ''_score'') (JInt 100))],
        [((lit ''wakhra swag''), [JObj (dict_set spec_item (lit ''_score'') (JInt 100))], 1810)], []) \<and>
   list_all above_floor [JObj (dict_set spec_item (lit ''_score'') (JInt 100))] \<and>
   fetch_artist (const_ratio 0) (net_artist [JObj retro, JObj spec_item]) (lit ''djshadow'') (lit ''wakhra swag'')
     = [JObj (dict_set spec_item (lit ''_score'') (JInt 100))] \<and>
   list_all (prefiltered (const_ratio 0) (lit ''wakhra swag''))
     (fetch_artist (const_ratio 0) (net_artist [JObj retro, JObj spec_item]) (lit ''djshadow'') (lit ''wakhra swag''))"
proof -
  let ?res = "[JObj (dict_set spec_item (lit ''_score'') (JInt 100))]"
  let ?c = "[((lit ''wakhra swag''), ?res, 1810 :: rat)]"
  have first: "search (const_ratio 0) KNOWN_ARTISTS (world_pages [JObj retro, JObj spec_item] []) []
      (Some (lit '' Wakhra SWAG '')) = (Inr ?res, ?c, futures KNOWN_ARTISTS (lit ''wakhra swag''))"
    by code_simp
  have r: "reachable (const_ratio 0) KNOWN_ARTISTS ?c"
    using reachable.call [OF reachable.start first] .
  have second: "search (const_ratio 0) KNOWN_ARTISTS later_world ?c (Some (lit ''wakhra swag''))
      = (Inr ?res, ?c, [])"
    by code_simp
  have f: "fetch_artist (const_ratio 0) (net_artist [JObj retro, JObj spec_item]) (lit ''djshadow'') (lit ''wakhra swag'')
     = ?res"
    by code_simp
  note t = no_result_at_or_below_floor [OF r second,
      where q = "(lit ''wakhra swag'')" and nt = "net_artist [JObj retro, JObj spec_item]"
        and artist = "(lit ''djshadow'')"]
  from t r second f show ?thesis by blast
qed

text \<open>
  Claim C7. A list that \<open>search\<close> returns has at most 150 entries, and of two adjacent
  entries the first has the greater score, or the same score and a play count at least as
  great.
\<close>

theorem result_set_ranked_and_bounded:
  assumes "reachable tsr catalog c" and "search tsr catalog w c arg = (Inr res, c', fs)"
  shows "length res \<le> 150 \<and>
         (\<forall>i. Suc i < length res \<longrightarrow>
            (\<exists>s p s' p'. sort_key_of (res ! i) = Inr (s, p) \<and>
                          sort_key_of (res ! Suc i) = Inr (s', p') \<and>
                          (s > s' \<or> (s = s' \<and> p \<ge> p'))))"
proof -
  have "result_ok res"
    using search_keeps_ok(2) [OF reachable_cache_ok [OF assms(1)] assms(2)] by simp
  then show ?thesis
    using ranked_adjacent [of res] by (simp add: result_ok_def)
qed

text \<open>
  An instance of C7 with a tie on the score broken by the play count.
\<close>

theorem result_set_ranked_and_bounded_witness:
  "reachable (const_ratio 50) KNOWN_ARTISTS [] \<and>
   fst (search (const_ratio 50) KNOWN_ARTISTS
          (world_pages [JObj club_hit, JObj swag_one] [JObj swag_two]) [] (Some (lit ''swag'')))
     = Inr [JObj (dict_set swag_two (lit ''_score'') (JInt 100)),
            JObj (dict_set swag_one (lit ''_score'') (JInt 100)),
            JObj (dict_set club_hit (lit ''_score'') (JFloat 55))] \<and>
   sort_key_of (JObj (dict_set swag_two (lit ''_score'') (JInt 100))) = Inr (100, 7) \<and>
   sort_key_of (JObj (dict_set swag_one (lit ''_score'') (JInt 100))) = Inr (100, 5) \<and>
   sort_key_of (JObj (dict_set club_hit (lit ''_score'') (JFloat 55))) = Inr (55, 10) \<and>
   length [JObj (dict_set swag_two (lit ''_score'') (JInt 100)),
           JObj (dict_set swag_one (lit ''_score'') (JInt 100)),
           JObj (dict_set club_hit (lit ''_score'') (JFloat 55))] \<le> 150 \<and>
   (\<exists>s p s' p'.
      sort_key_of (JObj (dict_set swag_two (lit ''_score'') (JInt 100))) = Inr (s, p) \<and>
      sort_key_of (JObj (dict_set swag_one (lit ''_score'') (JInt 100))) = Inr (s', p') \<and>
      (s > s' \<or> (s = s' \<and> p \<ge> p'))) \<and>
   (\<exists>s p s' p'.
      sort_key_of (JObj (dict_set swag_one (lit ''_score'') (JInt 100))) = Inr (s, p) \<and>
      sort_key_of (JObj (dict_set club_hit (lit ''_score'') (JFloat 55))) = Inr (s', p') \<and>
      (s > s' \<or> (s = s' \<and> p \<ge> p')))"
proof -
  let ?a = "JObj (dict_set swag_two (lit ''_score'') (JInt 100))"
  let ?b = "JObj (dict_set swag_one (lit ''_score'') (JInt 100))"
  let ?c = "JObj (dict_set club_hit (lit ''_score'') (JFloat 55))"
  let ?w = "world_pages [JObj club_hit, JObj swag_one] [JObj swag_two]"
  have run: "search (const_ratio 50) KNOWN_ARTISTS ?w [] (Some (lit ''swag''))
      = (Inr [?a, ?b, ?c], [((lit ''swag''), [?a, ?b, ?c], 1810)], futures KNOWN_ARTISTS (lit ''swag''))"
    by code_simp
  have ka: "sort_key_of ?a = Inr (100, 7)" by code_simp
  have kb: "sort_key_of ?b = Inr (100, 5)" by code_simp
  have kc: "sort_key_of ?c = Inr (55, 10)" by code_simp
  note t = result_set_ranked_and_bounded [OF reachable.start run]
  from t have len: "length [?a, ?b, ?c] \<le> 150" by blast
  from t have adj: "\<forall>i. Suc i < length [?a, ?b, ?c] \<longrightarrow>
            (\<exists>s p s' p'. sort_key_of ([?a, ?b, ?c] ! i) = Inr (s, p) \<and>
                          sort_key_of ([?a, ?b, ?c] ! Suc i) = Inr (s', p') \<and>
                          (s > s' \<or> (s = s' \<and> p \<ge> p')))" by blast
  from adj [rule_format, of 0]
  have p0: "\<exists>s p s' p'. sort_key_of ?a = Inr (s, p) \<and> sort_key_of ?b = Inr (s', p') \<and>
                          (s > s' \<or> (s = s' \<and> p \<ge> p'))" by simp
  from adj [rule_format, of 1]
  have p1: "\<exists>s p s' p'. sort_key_of ?b = Inr (s, p) \<and> sort_key_of ?c = Inr (s', p') \<and>
                          (s > s' \<or> (s = s' \<and> p \<ge> p'))" by simp
  have f: "fst (search (const_ratio 50) KNOWN_ARTISTS ?w [] (Some (lit ''swag''))) = Inr [?a, ?b, ?c]"
    using run by simp
  have r0: "reachable (const_ratio 50) KNOWN_ARTISTS []" by (rule reachable.start)
  show ?thesis
    using r0 f ka kb kc len p0 p1 by blast
qed

text \<open>
  Claim C4 as stated fails. Two pages arrive in order; identity 7 occurs first with a
  record that scores 0 and then with one that scores 100, identity 8 occurs twice with
  records that score 0. The result holds the later record of identity 7 and no entry of
  identity 8. (The library's ratio of \<^verbatim>\<open>swag\<close> with these titles is 0: they share no
  character.)
\<close>

theorem first_occurrence_can_lose:
  "collected (const_ratio 0) KNOWN_ARTISTS
      (world_pages [JObj old_mix, JObj retro] [JObj swag_remix, JObj retro_live]) (lit ''swag'')
     = [JObj old_mix, JObj retro, JObj swag_remix, JObj retro_live] \<and>
   item_key (JObj old_mix) = item_key (JObj swag_remix) \<and>
   item_key (JObj retro) = item_key (JObj retro_live) \<and>
   fst (search (const_ratio 0) KNOWN_ARTISTS
      (world_pages [JObj old_mix, JObj retro] [JObj swag_remix, JObj retro_live]) [] (Some (lit ''swag'')))
     = Inr [JObj (dict_set swag_remix (lit ''_score'') (JInt 100))]"
  by code_simp

text \<open>
  Claim C4, amended. The result of a run that fetched is the first 150, in rank order, of
  the winners: for every identity with an occurrence that passes the score filter, the
  first such occurrence in completion order. So no two entries share an identity, every
  entry has one and is the first surviving occurrence of it, and an occurrence that fails
  the filter does not keep a later one of its identity out of the winners.
\<close>

theorem first_surviving_occurrence_wins:
  assumes run: "search tsr catalog w c arg = (Inr res, c', fs)" and fetched: "fs \<noteq> []"
  shows "(\<exists>ranked_winners.
            sort_results (winners tsr (normalize_query arg)
                            (collected tsr catalog w (normalize_query arg))) = Inr ranked_winners \<and>
            set ranked_winners = set (winners tsr (normalize_query arg)
                                        (collected tsr catalog w (normalize_query arg))) \<and>
            length ranked_winners = length (winners tsr (normalize_query arg)
                                              (collected tsr catalog w (normalize_query arg))) \<and>
            res = take 150 ranked_winners) \<and>
         distinct (map item_key res) \<and>
         (\<forall>r \<in> set res.
            item_key r \<noteq> None \<and>
            find (\<lambda>x. item_key x = item_key r)
              (survivors tsr (normalize_query arg) (collected tsr catalog w (normalize_query arg)))
              = Some r) \<and>
         (\<forall>x \<in> set (survivors tsr (normalize_query arg)
                        (collected tsr catalog w (normalize_query arg))).
            \<exists>y \<in> set (winners tsr (normalize_query arg)
                          (collected tsr catalog w (normalize_query arg))).
              find (\<lambda>c. item_key c = item_key x)
                (survivors tsr (normalize_query arg) (collected tsr catalog w (normalize_query arg)))
                = Some y)"
proof -
  let ?q = "normalize_query arg"
  let ?S = "survivors tsr ?q (collected tsr catalog w ?q)"
  let ?W = "winners tsr ?q (collected tsr catalog w ?q)"
  let ?tss = "map (run_fetch tsr (net w) ?q) (as_completed w (futures catalog ?q))"
  note sf = search_fetches [OF run fetched]
  from search_miss [OF sf run]
  obtain results seen_ids sorted_results where
    g: "gather tsr ?q ?tss ([], {}) = Inr (results, seen_ids)"
    and s: "sort_results results = Inr sorted_results"
    and res: "res = take 150 sorted_results"
    by auto
  have results: "results = ?W"
    using gather_results [OF g] by (simp add: collected_def winners_def)
  have first: "\<exists>ranked_winners. sort_results ?W = Inr ranked_winners \<and>
      set ranked_winners = set ?W \<and> length ranked_winners = length ?W \<and>
      res = take 150 ranked_winners"
    using s res sort_results_props(1) [OF s] sort_results_props(2) [OF s] unfolding results by blast
  have "distinct (map item_key results)"
    unfolding results winners_def by (rule keep_new_distinct)
  then have "distinct (map item_key sorted_results)"
    using sort_results_props(4) [OF s, of item_key] by simp
  then have d: "distinct (map item_key res)"
    unfolding res take_map [symmetric] by (rule distinct_take)
  have sub: "set res \<subseteq> set results"
    using sort_results_props(1) [OF s] set_take_subset [of 150 sorted_results] by (simp add: res)
  have each: "item_key r \<noteq> None \<and> find (\<lambda>x. item_key x = item_key r) ?S = Some r"
    if "r \<in> set res" for r
  proof -
    from that sub have r: "r \<in> set (keep_new {} ?S)"
      unfolding results winners_def by blast
    from keep_new_keys [OF r] keep_new_first [OF r] show ?thesis by auto
  qed
  have all: "\<exists>y \<in> set ?W. find (\<lambda>c. item_key c = item_key x) ?S = Some y"
    if "x \<in> set ?S" for x
    using that by (rule winners_complete)
  from first d each all show ?thesis by blast
qed

text \<open>
  An instance of the amended C4 on the run above.
\<close>

theorem first_surviving_occurrence_wins_witness:
  "search (const_ratio 0) KNOWN_ARTISTS
      (world_pages [JObj old_mix, JObj retro] [JObj swag_remix, JObj retro_live]) [] (Some (lit ''swag''))
     = (Inr [JObj (dict_set swag_remix (lit ''_score'') (JInt 100))],
        [(lit ''swag'', [JObj (dict_set swag_remix (lit ''_score'') (JInt 100))], 1810)],
        futures KNOWN_ARTISTS (lit ''swag'')) \<and>
   futures KNOWN_ARTISTS (lit ''swag'') \<noteq> [] \<and>
   survivors (const_ratio 0) (normalize_query (Some (lit ''swag'')))
        (collected (const_ratio 0) KNOWN_ARTISTS
           (world_pages [JObj old_mix, JObj retro] [JObj swag_remix, JObj retro_live])
           (normalize_query (Some (lit ''swag''))))
     = [JObj (dict_set swag_remix (lit ''_score'') (JInt 100))] \<and>
   sort_results (winners (const_ratio 0) (normalize_query (Some (lit ''swag'')))
        (collected (const_ratio 0) KNOWN_ARTISTS
           (world_pages [JObj old_mix, JObj retro] [JObj swag_remix, JObj retro_live])
           (normalize_query (Some (lit ''swag'')))))
     = Inr [JObj (dict_set swag_remix (lit ''_score'') (JInt 100))] \<and>
   distinct (map item_key [JObj (dict_set swag_remix (lit ''_score'') (JInt 100))]) \<and>
   item_key (JObj (dict_set swag_remix (lit ''_score'') (JInt 100))) \<noteq> None \<and>
   find (\<lambda>x. item_key x = item_key (JObj (dict_set swag_remix (lit ''_score'') (JInt 100))))
     (survivors (const_ratio 0) (normalize_query (Some (lit ''swag'')))
        (collected (const_ratio 0) KNOWN_ARTISTS
           (world_pages [JObj old_mix, JObj retro] [JObj swag_remix, JObj retro_live])
           (normalize_query (Some (lit ''swag'')))))
     = Some (JObj (dict_set swag_remix (lit ''_score'') (JInt 100)))"
proof -
  let ?w = "world_pages [JObj old_mix, JObj retro] [JObj swag_remix, JObj retro_live]"
  let ?r = "JObj (dict_set swag_remix (lit ''_score'') (JInt 100))"
  let ?q = "normalize_query (Some (lit ''swag''))"
  let ?S = "survivors (const_ratio 0) ?q (collected (const_ratio 0) KNOWN_ARTISTS ?w ?q)"
  let ?W = "winners (const_ratio 0) ?q (collected (const_ratio 0) KNOWN_ARTISTS ?w ?q)"
  have run: "search (const_ratio 0) KNOWN_ARTISTS ?w [] (Some (lit ''swag''))
     = (Inr [?r], [(lit ''swag'', [?r], 1810)], futures KNOWN_ARTISTS (lit ''swag''))"
    by code_simp
  have ne: "futures KNOWN_ARTISTS (lit ''swag'') \<noteq> []" by (rule futures_nonempty)
  have sv: "?S = [?r]" by code_simp
  note t = first_surviving_occurrence_wins [OF run ne]
  from t obtain ranked_winners where
    rw: "sort_results ?W = Inr ranked_winners" and tk: "[?r] = take 150 ranked_winners"
    and st: "set ranked_winners = set ?W"
    by blast
  have "?W = [?r]" by code_simp
  with st rw have "set ranked_winners = {?r}" by simp
  moreover have "length ranked_winners = 1"
    using sort_results_props(2) [OF rw] \<open>?W = [?r]\<close> by simp
  ultimately have "ranked_winners = [?r]"
    by (cases ranked_winners) auto
  with rw have sr: "sort_results ?W = Inr [?r]" by simp
  from t have d: "distinct (map item_key [?r])" by blast
  from t have "\<forall>r \<in> set [?r]. item_key r \<noteq> None \<and> find (\<lambda>x. item_key x = item_key r) ?S = Some r"
    by blast
  then have k: "item_key ?r \<noteq> None" and f: "find (\<lambda>x. item_key x = item_key ?r) ?S = Some ?r"
    by simp_all
  from run ne sv sr d k f show ?thesis by blast
qed

text \<open>
  The sort key of an entry without \<^verbatim>\<open>playback_count\<close> takes the default 0.
\<close>

lemma missing_play_count_defaults_to_0:
  assumes "map_of d (lit ''playback_count'') = None"
    and "num_of (dict_get d (lit ''_score'') (JInt 0)) = Some s"
  shows "sort_key_of (JObj d) = Inr (s, 0)"
  using assms by (simp add: sort_key_of_def dict_get_def)

text \<open>
  Claim C1. A record whose \<^verbatim>\<open>playback_count\<close> is the string \<^verbatim>\<open>1.2k\<close> passes the
  filter and reaches the sort, where \<^verbatim>\<open>int\<close> raises \<^verbatim>\<open>ValueError\<close>: the
  exception leaves \<open>search\<close> and nothing is cached.
\<close>

theorem search_raises_on_unparsable_play_count:
  "search (const_ratio 0) KNOWN_ARTISTS (world_pages [JObj bad_count] []) [] (Some (lit ''wakhra swag''))
     = (Inl ValueError, [], futures KNOWN_ARTISTS (lit ''wakhra swag''))"
  by code_simp

end
